theory Spec2Isabelle
  imports Complex_Main
begin

section \<open>JavaScript numbers\<close>

text \<open>
  A JavaScript \<open>number\<close> is modelled as a real number or one of the three special values
  \<open>Infinity\<close>, \<open>-Infinity\<close> and \<open>NaN\<close>. The operations of this section are exact on finite
  values; the rounding, overflow and underflow of double precision are the subject of the
  section on double precision, whose functions settle every property that depends on the
  value a computation returns. The special values follow
  IEEE 754, so that a division by zero or a logarithm of zero is a value and never an
  exception, as in the source. The two zeros are identified and a division by zero is a
  division by \<open>+0\<close>, the zero that \<open>Math.sqrt(x*x + y*y)\<close> returns.
\<close>

datatype number = Fin real | PInf | NInf | NaN

instantiation number :: comm_monoid_add
begin

definition zero_number :: number where
  "zero_number = Fin 0"

fun plus_number :: "number \<Rightarrow> number \<Rightarrow> number" where
  "plus_number (Fin a) (Fin b) = Fin (a + b)"
| "plus_number NaN _ = NaN"
| "plus_number _ NaN = NaN"
| "plus_number PInf NInf = NaN"
| "plus_number NInf PInf = NaN"
| "plus_number PInf _ = PInf"
| "plus_number _ PInf = PInf"
| "plus_number NInf _ = NInf"
| "plus_number _ NInf = NInf"

instance
proof
  fix p q r :: number
  show "0 + p = p"
    by (cases p) (simp_all add: zero_number_def)
  show "p + q = q + p"
    by (cases p; cases q) simp_all
  show "p + q + r = p + (q + r)"
    by (cases p; cases q; cases r) simp_all
qed

end

instantiation number :: "{uminus, minus, times, inverse}"
begin

fun uminus_number :: "number \<Rightarrow> number" where
  "uminus_number (Fin a) = Fin (- a)"
| "uminus_number PInf = NInf"
| "uminus_number NInf = PInf"
| "uminus_number NaN = NaN"

definition minus_number :: "number \<Rightarrow> number \<Rightarrow> number" where
  "minus_number a b = a + (- b)"

text \<open>The sign of an infinite product or quotient; a zero factor gives \<open>NaN\<close>.\<close>

definition signed_inf :: "real \<Rightarrow> number" where
  "signed_inf s = (if 0 < s then PInf else if s < 0 then NInf else NaN)"

fun times_number :: "number \<Rightarrow> number \<Rightarrow> number" where
  "times_number (Fin a) (Fin b) = Fin (a * b)"
| "times_number NaN _ = NaN"
| "times_number _ NaN = NaN"
| "times_number (Fin a) PInf = signed_inf a"
| "times_number (Fin a) NInf = signed_inf (- a)"
| "times_number PInf (Fin b) = signed_inf b"
| "times_number NInf (Fin b) = signed_inf (- b)"
| "times_number PInf PInf = PInf"
| "times_number PInf NInf = NInf"
| "times_number NInf PInf = NInf"
| "times_number NInf NInf = PInf"

fun divide_number :: "number \<Rightarrow> number \<Rightarrow> number" where
  "divide_number (Fin a) (Fin b) = (if b = 0 then signed_inf a else Fin (a / b))"
| "divide_number NaN _ = NaN"
| "divide_number _ NaN = NaN"
| "divide_number (Fin a) PInf = Fin 0"
| "divide_number (Fin a) NInf = Fin 0"
| "divide_number PInf (Fin b) = (if 0 \<le> b then PInf else NInf)"
| "divide_number NInf (Fin b) = (if 0 \<le> b then NInf else PInf)"
| "divide_number PInf PInf = NaN"
| "divide_number PInf NInf = NaN"
| "divide_number NInf PInf = NaN"
| "divide_number NInf NInf = NaN"

definition inverse_number :: "number \<Rightarrow> number" where
  "inverse_number a = divide (Fin 1) a"

instance ..

end

text \<open>\<open>Math.sqrt\<close> and \<open>Math.log\<close>.\<close>

fun Math_sqrt :: "number \<Rightarrow> number" where
  "Math_sqrt (Fin a) = (if a < 0 then NaN else Fin (sqrt a))"
| "Math_sqrt PInf = PInf"
| "Math_sqrt NInf = NaN"
| "Math_sqrt NaN = NaN"

fun Math_log :: "number \<Rightarrow> number" where
  "Math_log (Fin a) = (if a < 0 then NaN else if a = 0 then NInf else Fin (ln a))"
| "Math_log PInf = PInf"
| "Math_log NInf = NaN"
| "Math_log NaN = NaN"

section \<open>Vector math (\<open>lib/vector-math.js\<close>)\<close>

record vector =
  x :: number
  y :: number

definition add :: "vector \<Rightarrow> vector \<Rightarrow> vector" where
  "add u v = \<lparr>x = x u + x v, y = y u + y v\<rparr>"

definition sub :: "vector \<Rightarrow> vector \<Rightarrow> vector" where
  "sub u v = \<lparr>x = x u - x v, y = y u - y v\<rparr>"

definition scalarMult :: "number \<Rightarrow> vector \<Rightarrow> vector" where
  "scalarMult a v = \<lparr>x = a * x v, y = a * y v\<rparr>"

definition length_vec :: "vector \<Rightarrow> number" where
  "length_vec v = Math_sqrt (x v * x v + y v * y v)"

definition norm_vec :: "vector \<Rightarrow> vector" where
  "norm_vec v = scalarMult (Fin 1 / length_vec \<lparr>x = x v, y = y v\<rparr>) \<lparr>x = x v, y = y v\<rparr>"

section \<open>Graph model (\<open>lib/graph.js\<close>)\<close>

text \<open>
  An adjacency list is an array of rows of vertex indices. \<open>Array.prototype.map\<close> and
  \<open>flatMap\<close> pass the element and its index to the callback; \<open>enumerate 0\<close> pairs each
  row with its index.
\<close>

type_synonym adjacency = "nat list list"

record edge =
  from_vertex :: nat
  to_vertex :: nat

definition getVertices :: "adjacency \<Rightarrow> nat list" where
  "getVertices adjacencyList = map (\<lambda>(vertex, _). vertex) (enumerate 0 adjacencyList)"

definition getEdges :: "adjacency \<Rightarrow> edge list" where
  "getEdges adjacencyList =
     concat (map (\<lambda>(from, row). map (\<lambda>to. \<lparr>from_vertex = from, to_vertex = to\<rparr>) row)
                 (enumerate 0 adjacencyList))"

text \<open>
  \<open>adjacencyList[vertex] || []\<close>: an index past the end reads \<open>undefined\<close>, which is
  replaced by the empty row.
\<close>

definition getAdjacentVertices :: "adjacency \<Rightarrow> nat \<Rightarrow> nat list" where
  "getAdjacentVertices adjacencyList vertex =
     (let outbound = (if vertex < length adjacencyList then adjacencyList ! vertex else []);
          inbound = concat (map (\<lambda>(from, vertices). if List.member vertices vertex then [from] else [])
                                (enumerate 0 adjacencyList))
      in outbound @ inbound)"

text \<open>The adjacency list of the entry point.\<close>

definition adjacencyList_main :: adjacency where
  "adjacencyList_main = [[], [0, 2], [3, 4, 5], [6], [], [], [7, 8], [], [9, 10], [], []]"

section \<open>Force model (\<open>lib/graph.js\<close>)\<close>

text \<open>\<open>magnitude\<close> is the local constant of \<open>calculateSpringForce\<close>.\<close>

definition springMagnitude :: "vector \<Rightarrow> number \<Rightarrow> number" where
  "springMagnitude uToV optimumDistance =
     optimumDistance * Math_log (length_vec uToV / optimumDistance)"

definition calculateSpringForce :: "vector \<Rightarrow> vector \<Rightarrow> number \<Rightarrow> vector" where
  "calculateSpringForce u v optimumDistance =
     (let uToV = sub v u;
          magnitude = springMagnitude uToV optimumDistance
      in scalarMult magnitude (norm_vec uToV))"

definition calculateRepulsion :: "vector \<Rightarrow> vector \<Rightarrow> number \<Rightarrow> vector" where
  "calculateRepulsion u v optimumDistance =
     (let uToV = sub u v;
          magnitude = optimumDistance / length_vec uToV
      in scalarMult magnitude (norm_vec uToV))"

section \<open>Layout step (\<open>makeLayout\<close>)\<close>

text \<open>
  \<open>positions[i]\<close> past the end of the array is \<open>undefined\<close>, and the vector functions
  destructure their arguments (\<open>({x, y}) => ...\<close>), which raises a \<open>TypeError\<close> on
  \<open>undefined\<close>. The force functions above are the functions on vectors; the exception is
  modelled where an \<open>undefined\<close> argument can arise, at the reads of \<open>positions\<close>.
\<close>

datatype error = TypeError

definition index :: "'a list \<Rightarrow> nat \<Rightarrow> 'a option" where
  "index xs i = (if i < length xs then Some (xs ! i) else None)"

text \<open>\<open>Array.prototype.reduce\<close> and \<open>map\<close> with a callback that may throw.\<close>

fun reduce :: "('b \<Rightarrow> 'a \<Rightarrow> error + 'b) \<Rightarrow> 'b \<Rightarrow> 'a list \<Rightarrow> error + 'b" where
  "reduce f acc [] = Inr acc"
| "reduce f acc (a # as) = (case f acc a of Inl e \<Rightarrow> Inl e | Inr acc' \<Rightarrow> reduce f acc' as)"

fun map_array :: "('a \<Rightarrow> error + 'b) \<Rightarrow> 'a list \<Rightarrow> error + 'b list" where
  "map_array f [] = Inr []"
| "map_array f (a # as) =
     (case f a of
        Inl e \<Rightarrow> Inl e
      | Inr b \<Rightarrow> (case map_array f as of Inl e \<Rightarrow> Inl e | Inr bs \<Rightarrow> Inr (b # bs)))"

definition localAttraction :: "adjacency \<Rightarrow> number \<Rightarrow> vector list \<Rightarrow> nat \<Rightarrow> error + vector" where
  "localAttraction adjacencyList optimumDistance positions vertex =
     (let adjacentVertices = getAdjacentVertices adjacencyList vertex
      in reduce (\<lambda>acc adjacent.
                   case (index positions vertex, index positions adjacent) of
                     (Some pos1, Some pos2) \<Rightarrow>
                       (let attraction = calculateSpringForce pos1 pos2 optimumDistance
                        in Inr (add acc attraction))
                   | _ \<Rightarrow> Inl TypeError)
                \<lparr>x = Fin 0, y = Fin 0\<rparr> adjacentVertices)"

definition globalRepulsion :: "nat list \<Rightarrow> number \<Rightarrow> vector list \<Rightarrow> nat \<Rightarrow> error + vector" where
  "globalRepulsion vertices optimumDistance positions vertex =
     reduce (\<lambda>acc global.
               case (index positions vertex, index positions global) of
                 (Some pos1, Some pos2) \<Rightarrow>
                   (let repulsion = calculateRepulsion pos1 pos2 optimumDistance
                    in Inr (add acc repulsion))
               | _ \<Rightarrow> Inl TypeError)
            \<lparr>x = Fin 0, y = Fin 0\<rparr> (filter (\<lambda>current. current \<noteq> vertex) vertices)"

text \<open>The callback of \<open>vertices.map\<close> in \<open>makeLayout\<close>, with the variables it closes over.\<close>

definition layoutVertex ::
  "adjacency \<Rightarrow> number \<Rightarrow> vector list \<Rightarrow> number \<Rightarrow> nat list \<Rightarrow> nat \<Rightarrow> error + vector" where
  "layoutVertex adjacencyList optimumDistance positions damping vertices vertex =
     (case localAttraction adjacencyList optimumDistance positions vertex of
        Inl e \<Rightarrow> Inl e
      | Inr attraction \<Rightarrow>
         (case globalRepulsion vertices optimumDistance positions vertex of
            Inl e \<Rightarrow> Inl e
          | Inr repulsion \<Rightarrow>
             (let force = scalarMult damping (add attraction repulsion)
              in case index positions vertex of
                   None \<Rightarrow> Inl TypeError
                 | Some p \<Rightarrow> Inr (add force p))))"

definition makeLayout :: "adjacency \<Rightarrow> number \<Rightarrow> vector list \<Rightarrow> error + vector list" where
  "makeLayout adjacencyList optimumDistance positions =
     (let damping = Fin 0.4;
          vertices = getVertices adjacencyList
      in map_array (layoutVertex adjacencyList optimumDistance positions damping vertices) vertices)"

section \<open>Layout run (\<open>runLayout\<close>)\<close>

text \<open>
  The snapshots are arrays, which JavaScript passes by reference: the generator yields the
  array it keeps in \<open>positions\<close>. The store holds the arrays the run has created, an array's
  reference is its index in the store, and a new array is put at the end. The vectors of
  an array are fresh object literals that nothing assigns to, so an array is stored as the
  list of its vectors.
\<close>

type_synonym ref = nat
type_synonym heap = "vector list list"

definition alloc :: "heap \<Rightarrow> vector list \<Rightarrow> ref \<times> heap" where
  "alloc h a = (length h, h @ [a])"

text \<open>
  \<open>Math.random\<close> is the sequence \<open>rnd\<close> of the values it returns during the run; the
  counter of the draws made so far is passed along. The \<open>x\<close> coordinate of a vertex is
  drawn before its \<open>y\<close> coordinate.
\<close>

fun initialPositions :: "(nat \<Rightarrow> real) \<Rightarrow> nat \<Rightarrow> number \<Rightarrow> nat list \<Rightarrow> vector list \<times> nat" where
  "initialPositions rnd c vertexDistance [] = ([], c)"
| "initialPositions rnd c vertexDistance (_ # vertices) =
     (let px = (Fin (rnd c) - Fin 0.5) * Fin 2 * vertexDistance;
          py = (Fin (rnd (c + 1)) - Fin 0.5) * Fin 2 * vertexDistance;
          (rest, c') = initialPositions rnd (c + 2) vertexDistance vertices
      in (\<lparr>x = px, y = py\<rparr> # rest, c'))"

text \<open>
  A generator object: the arguments of the call and the place where the body is
  suspended, with the local variables live there. \<open>SuspendedYield1\<close> is the \<open>yield\<close>
  before the loop, \<open>SuspendedYield2\<close> the one in the loop body.
\<close>

datatype suspension =
    SuspendedStart
  | SuspendedYield1 ref
  | SuspendedYield2 int ref
  | Completed

record generator =
  adjacencyList :: adjacency
  vertexDistance :: number
  iterations :: int
  suspension :: suspension

text \<open>Calling \<open>runLayout\<close> runs none of the body; omitted arguments take their defaults.\<close>

definition runLayout :: "adjacency \<Rightarrow> number option \<Rightarrow> int option \<Rightarrow> generator" where
  "runLayout adj vd its =
     \<lparr>adjacencyList = adj,
      vertexDistance = (case vd of None \<Rightarrow> Fin 100 | Some d \<Rightarrow> d),
      iterations = (case its of None \<Rightarrow> 1000 | Some k \<Rightarrow> k),
      suspension = SuspendedStart\<rparr>"

datatype iterator_result = Yield ref | Return | Throw error

text \<open>The loop from its test \<open>i < iterations\<close> to the next \<open>yield\<close> or to the end.\<close>

definition loop_from :: "generator \<Rightarrow> int \<Rightarrow> ref \<Rightarrow> heap \<Rightarrow> iterator_result \<times> generator \<times> heap" where
  "loop_from g i positions h =
     (if i < iterations g then
        (case makeLayout (adjacencyList g) (vertexDistance g) (h ! positions) of
           Inl e \<Rightarrow> (Throw e, g\<lparr>suspension := Completed\<rparr>, h)
         | Inr new \<Rightarrow>
            (let (positions', h') = alloc h new
             in (Yield positions', g\<lparr>suspension := SuspendedYield2 i positions'\<rparr>, h')))
      else (Return, g\<lparr>suspension := Completed\<rparr>, h))"

text \<open>The generator's \<open>next()\<close>.\<close>

definition gen_next :: "(nat \<Rightarrow> real) \<Rightarrow> generator \<Rightarrow> heap \<Rightarrow> iterator_result \<times> generator \<times> heap" where
  "gen_next rnd g h =
     (case suspension g of
        SuspendedStart \<Rightarrow>
          (let vertices = getVertices (adjacencyList g);
               (new, _) = initialPositions rnd 0 (vertexDistance g) vertices;
               (positions, h') = alloc h new
           in (Yield positions, g\<lparr>suspension := SuspendedYield1 positions\<rparr>, h'))
      | SuspendedYield1 positions \<Rightarrow> loop_from g 0 positions h
      | SuspendedYield2 i positions \<Rightarrow> loop_from g (i + 1) positions h
      | Completed \<Rightarrow> (Return, g, h))"

text \<open>
  The consumer's \<open>for (const positions of runLayout(...))\<close>: \<open>next()\<close> is called until the
  generator is done or throws. The result is the references yielded, the exception if
  one ended the run, and the generator and the store at the end.
\<close>

definition remaining :: "generator \<Rightarrow> nat" where
  "remaining g =
     (case suspension g of
        SuspendedStart \<Rightarrow> nat (iterations g) + 2
      | SuspendedYield1 _ \<Rightarrow> nat (iterations g) + 1
      | SuspendedYield2 i _ \<Rightarrow> nat (iterations g - i)
      | Completed \<Rightarrow> 0)"

function drain :: "(nat \<Rightarrow> real) \<Rightarrow> generator \<Rightarrow> heap \<Rightarrow> ref list \<times> error option \<times> generator \<times> heap" where
  "drain rnd g h =
     (case gen_next rnd g h of
        (Yield r, g', h') \<Rightarrow> (case drain rnd g' h' of (rs, e, g'', h'') \<Rightarrow> (r # rs, e, g'', h''))
      | (Return, g', h') \<Rightarrow> ([], None, g', h')
      | (Throw e, g', h') \<Rightarrow> ([], Some e, g', h'))"
  by pat_completeness auto
termination
  apply (relation "measure (\<lambda>(rnd, g, h). remaining g)")
   apply simp
  apply (auto simp: gen_next_def loop_from_def remaining_def alloc_def
             split: suspension.splits if_splits sum.splits prod.splits)
  done

declare drain.simps [simp del]

text \<open>
  A suspended generator holds a reference that \<open>alloc\<close> returned, so the array it refers
  to is in the store; \<open>loop_from\<close> reads the store only at such a reference.
\<close>

definition valid_refs :: "generator \<Rightarrow> heap \<Rightarrow> bool" where
  "valid_refs g h =
     (case suspension g of
        SuspendedStart \<Rightarrow> True
      | SuspendedYield1 positions \<Rightarrow> positions < length h
      | SuspendedYield2 _ positions \<Rightarrow> positions < length h
      | Completed \<Rightarrow> True)"

text \<open>The invariant of the data model: every target of an adjacency row is a vertex.\<close>

definition wf_adjacency :: "adjacency \<Rightarrow> bool" where
  "wf_adjacency adj = list_all (\<lambda>row. list_all (\<lambda>to. to < length adj) row) adj"

text \<open>The sum of a sequence of vectors.\<close>

definition vector_sum :: "vector list \<Rightarrow> vector" where
  "vector_sum vs = \<lparr>x = sum_list (map x vs), y = sum_list (map y vs)\<rparr>"

text \<open>
  The position that the specification of a step gives vertex \<open>v\<close>: the prior position
  plus 0.4 times the sum of the spring forces towards the neighbours and of the repulsion
  from every other vertex.
\<close>

definition newPosition :: "adjacency \<Rightarrow> number \<Rightarrow> vector list \<Rightarrow> nat \<Rightarrow> vector" where
  "newPosition adj d pos v =
     add (pos ! v)
       (scalarMult (Fin 0.4)
         (add (vector_sum (map (\<lambda>n. calculateSpringForce (pos ! v) (pos ! n) d)
                               (getAdjacentVertices adj v)))
              (vector_sum (map (\<lambda>w. calculateRepulsion (pos ! v) (pos ! w) d)
                               (filter (\<lambda>w. w \<noteq> v) [0..<length adj])))))"

text \<open>
  Two random sources for the examples: every draw of the first is 0.25; the second
  agrees with it on the first \<open>n\<close> draws and returns 0.75 afterwards.
\<close>

definition constant_draws :: "nat \<Rightarrow> real" where
  "constant_draws i = 1 / 4"

definition draws_prefix :: "nat \<Rightarrow> nat \<Rightarrow> real" where
  "draws_prefix n i = (if i < n then 1 / 4 else 3 / 4)"

section \<open>Double precision\<close>

text \<open>
  The numbers of the source are IEEE 754 doubles: every arithmetic operation returns the
  exact result rounded to the nearest double, a tie to the double with the even
  significand, a result of 2^1024 or more in magnitude to an infinity; below 2^-1022 the
  doubles are the multiples of 2^-1074. \<open>round64\<close> is this rounding, and the operations
  \<open>fadd\<close>, \<open>fsub\<close>, \<open>fmul\<close>, \<open>fdiv\<close> and \<open>fsqrt\<close> are the exact operations of the
  section on numbers followed by it. The values of \<open>length\<close>, \<open>norm\<close> and the spring force
  at given vectors depend on the rounding, so the claims about these values are settled on
  the functions below, which are the source's functions with every operation rounded.
\<close>

definition overflow_threshold :: real where
  "overflow_threshold = 2 ^ 1024"

definition min_normal :: real where
  "min_normal = 2 powr (- 1022)"

definition min_subnormal :: real where
  "min_subnormal = 2 powr (- 1074)"

definition round_even :: "real \<Rightarrow> int" where
  "round_even a =
     (let f = \<lfloor>a\<rfloor>; r = a - of_int f
      in if r < 1 / 2 then f else if 1 / 2 < r then f + 1 else if even f then f else f + 1)"

definition ulp_exponent :: "real \<Rightarrow> int" where
  "ulp_exponent a = max \<lfloor>log 2 \<bar>a\<bar>\<rfloor> (- 1022) - 52"

definition ulp :: "real \<Rightarrow> real" where
  "ulp a = 2 powr of_int (ulp_exponent a)"

definition round64 :: "real \<Rightarrow> number" where
  "round64 a =
     (if a = 0 then Fin 0
      else let r = of_int (round_even (a / ulp a)) * ulp a
           in if overflow_threshold \<le> \<bar>r\<bar> then signed_inf a else Fin r)"

fun to_double :: "number \<Rightarrow> number" where
  "to_double (Fin a) = round64 a"
| "to_double PInf = PInf"
| "to_double NInf = NInf"
| "to_double NaN = NaN"

definition fadd :: "number \<Rightarrow> number \<Rightarrow> number" where
  "fadd a b = to_double (a + b)"

definition fsub :: "number \<Rightarrow> number \<Rightarrow> number" where
  "fsub a b = to_double (a - b)"

definition fmul :: "number \<Rightarrow> number \<Rightarrow> number" where
  "fmul a b = to_double (a * b)"

definition fdiv :: "number \<Rightarrow> number \<Rightarrow> number" where
  "fdiv a b = to_double (a / b)"

definition fsqrt :: "number \<Rightarrow> number" where
  "fsqrt a = to_double (Math_sqrt a)"

text \<open>
  \<open>Math.log\<close> is implementation-approximated in ECMAScript, with the results at negative
  numbers, zero, one and the special values fixed. \<open>lg\<close> is the approximation of the
  natural logarithm that the implementation computes at the other doubles; its value is
  rounded, which leaves a value that is a double already as it is.
\<close>

fun Math_log_f64 :: "(real \<Rightarrow> real) \<Rightarrow> number \<Rightarrow> number" where
  "Math_log_f64 lg (Fin a) =
     (if a < 0 then NaN else if a = 0 then NInf else if a = 1 then Fin 0 else round64 (lg a))"
| "Math_log_f64 lg PInf = PInf"
| "Math_log_f64 lg NInf = NaN"
| "Math_log_f64 lg NaN = NaN"

definition sub_f64 :: "vector \<Rightarrow> vector \<Rightarrow> vector" where
  "sub_f64 u v = \<lparr>x = fsub (x u) (x v), y = fsub (y u) (y v)\<rparr>"

definition scalarMult_f64 :: "number \<Rightarrow> vector \<Rightarrow> vector" where
  "scalarMult_f64 a v = \<lparr>x = fmul a (x v), y = fmul a (y v)\<rparr>"

definition length_f64 :: "vector \<Rightarrow> number" where
  "length_f64 v = fsqrt (fadd (fmul (x v) (x v)) (fmul (y v) (y v)))"

definition norm_f64 :: "vector \<Rightarrow> vector" where
  "norm_f64 v =
     scalarMult_f64 (fdiv (Fin 1) (length_f64 \<lparr>x = x v, y = y v\<rparr>)) \<lparr>x = x v, y = y v\<rparr>"

definition springMagnitude_f64 :: "(real \<Rightarrow> real) \<Rightarrow> vector \<Rightarrow> number \<Rightarrow> number" where
  "springMagnitude_f64 lg uToV optimumDistance =
     fmul optimumDistance (Math_log_f64 lg (fdiv (length_f64 uToV) optimumDistance))"

definition calculateSpringForce_f64 ::
  "(real \<Rightarrow> real) \<Rightarrow> vector \<Rightarrow> vector \<Rightarrow> number \<Rightarrow> vector" where
  "calculateSpringForce_f64 lg u v optimumDistance =
     (let uToV = sub_f64 v u;
          magnitude = springMagnitude_f64 lg uToV optimumDistance
      in scalarMult_f64 magnitude (norm_f64 uToV))"

text \<open>The sign of a number: a positive real or \<open>Infinity\<close>, a negative real or \<open>-Infinity\<close>.\<close>

fun is_positive :: "number \<Rightarrow> bool" where
  "is_positive (Fin a) = (0 < a)"
| "is_positive PInf = True"
| "is_positive NInf = False"
| "is_positive NaN = False"

fun is_negative :: "number \<Rightarrow> bool" where
  "is_negative (Fin a) = (a < 0)"
| "is_negative PInf = False"
| "is_negative NInf = True"
| "is_negative NaN = False"

section \<open>Double precision: rounding\<close>

lemma round_even_error: "\<bar>of_int (round_even a) - a\<bar> \<le> 1 / 2"
proof -
  have f: "of_int \<lfloor>a\<rfloor> \<le> a" "a < of_int \<lfloor>a\<rfloor> + 1" by linarith+
  show ?thesis
    unfolding round_even_def Let_def using f by (simp add: abs_le_iff)
qed

lemma round_even_of_int: "round_even (of_int n) = n"
  by (simp add: round_even_def)

lemma round_even_unique:
  assumes "\<bar>of_int n - a\<bar> < 1 / 2"
  shows "round_even a = n"
proof -
  have "\<bar>of_int (round_even a) - a\<bar> \<le> 1 / 2" by (rule round_even_error)
  with assms have "\<bar>(of_int (round_even a) :: real) - of_int n\<bar> < 1" by linarith
  then have "\<bar>(of_int (round_even a - n) :: real)\<bar> < 1" by simp
  then have "\<bar>round_even a - n\<bar> < 1" by linarith
  then show ?thesis by linarith
qed

lemma round_even_tie:
  assumes "a = of_int n + 1 / 2"
  shows "round_even a = (if even n then n else n + 1)"
proof -
  have "\<lfloor>a\<rfloor> = n" unfolding assms by linarith
  then show ?thesis using assms by (simp add: round_even_def Let_def)
qed

lemma round_even_ge:
  assumes "of_int n \<le> a"
  shows "n \<le> round_even a"
proof -
  from assms have "n \<le> \<lfloor>a\<rfloor>" by linarith
  moreover have "\<lfloor>a\<rfloor> \<le> round_even a" by (simp add: round_even_def Let_def)
  ultimately show ?thesis by linarith
qed

lemma round_even_le:
  assumes "a \<le> of_int n"
  shows "round_even a \<le> n"
proof (cases "a = of_int n")
  case True
  then show ?thesis by (simp add: round_even_of_int)
next
  case False
  with assms have "a < of_int n" by simp
  then have "\<lfloor>a\<rfloor> < n" by linarith
  moreover have "round_even a \<le> \<lfloor>a\<rfloor> + 1" by (simp add: round_even_def Let_def)
  ultimately show ?thesis by linarith
qed

lemma floor_log2_bounds:
  assumes "a \<noteq> 0"
  shows "2 powr of_int \<lfloor>log 2 \<bar>a\<bar>\<rfloor> \<le> \<bar>a\<bar>" and "\<bar>a\<bar> < 2 powr (of_int \<lfloor>log 2 \<bar>a\<bar>\<rfloor> + 1)"
proof -
  from assms have pos: "0 < \<bar>a\<bar>" by simp
  have "\<lfloor>log 2 \<bar>a\<bar>\<rfloor> = \<lfloor>log 2 \<bar>a\<bar>\<rfloor>" ..
  with floor_log_eq_powr_iff[OF pos, of 2 "\<lfloor>log 2 \<bar>a\<bar>\<rfloor>"]
  show "2 powr of_int \<lfloor>log 2 \<bar>a\<bar>\<rfloor> \<le> \<bar>a\<bar>" and "\<bar>a\<bar> < 2 powr (of_int \<lfloor>log 2 \<bar>a\<bar>\<rfloor> + 1)"
    by simp_all
qed

lemma ulp_pos: "0 < ulp a"
  by (simp add: ulp_def)

lemma min_subnormal_pos: "0 < min_subnormal"
  by (simp only: min_subnormal_def powr_gt_zero)

lemma min_normal_pos: "0 < min_normal"
  by (simp only: min_normal_def powr_gt_zero)

lemma overflow_threshold_pos: "0 < overflow_threshold"
  by (simp only: overflow_threshold_def zero_less_power zero_less_numeral)

lemma min_normal_eq: "min_normal = min_subnormal * 2 ^ 52"
proof -
  have "(2 :: real) powr (- 1074) * 2 powr 52 = 2 powr (- 1074 + 52)"
    by (simp only: powr_add)
  also have "(- 1074 + 52 :: real) = - 1022" by simp
  finally have "(2 :: real) powr (- 1074) * 2 powr 52 = 2 powr (- 1022)" .
  moreover have "(2 :: real) powr 52 = 2 ^ 52" by (rule powr_numeral) simp
  ultimately show ?thesis by (simp only: min_normal_def min_subnormal_def)
qed

lemma ulp_ge_min: "min_subnormal \<le> ulp a"
proof -
  have "- 1074 \<le> ulp_exponent a" by (simp add: ulp_exponent_def)
  then have "(- 1074 :: real) \<le> of_int (ulp_exponent a)" by linarith
  then show ?thesis unfolding ulp_def min_subnormal_def by (rule powr_mono) simp
qed

lemma ulp_normal:
  assumes "min_normal \<le> \<bar>a\<bar>"
  shows "ulp a * 2 ^ 52 \<le> \<bar>a\<bar>"
proof -
  from assms min_normal_pos have nz: "a \<noteq> 0" by auto
  let ?e = "\<lfloor>log 2 \<bar>a\<bar>\<rfloor>"
  from floor_log2_bounds[OF nz] assms have "(2 :: real) powr (- 1022) < 2 powr (of_int ?e + 1)"
    unfolding min_normal_def by linarith
  then have "(- 1022 :: real) < of_int ?e + 1" by (simp only: powr_less_cancel_iff) 
  then have "- 1022 \<le> ?e" by linarith
  then have u: "ulp_exponent a = ?e - 52" by (simp add: ulp_exponent_def)
  have "(2 :: real) powr of_int (?e - 52) * 2 ^ 52 = 2 powr of_int ?e"
    by (simp add: powr_diff)
  with floor_log2_bounds(1)[OF nz] u show ?thesis by (simp add: ulp_def)
qed

lemma ulp_scaled_gt:
  assumes "a \<noteq> 0"
  shows "\<bar>a\<bar> < ulp a * 2 ^ 53"
proof -
  let ?e = "\<lfloor>log 2 \<bar>a\<bar>\<rfloor>"
  have "?e - 52 \<le> ulp_exponent a" by (simp add: ulp_exponent_def)
  then have "(of_int ?e - 52 :: real) \<le> of_int (ulp_exponent a)" by linarith
  then have "(2 :: real) powr (of_int ?e - 52) \<le> 2 powr of_int (ulp_exponent a)" by simp
  then have "(2 :: real) powr (of_int ?e - 52) * 2 ^ 53 \<le> 2 powr of_int (ulp_exponent a) * 2 ^ 53"
    by simp
  moreover have "(2 :: real) powr (of_int ?e - 52) * 2 ^ 53 = 2 powr (of_int ?e + 1)"
    by (simp add: powr_diff powr_add)
  ultimately show ?thesis using floor_log2_bounds(2)[OF assms] unfolding ulp_def by linarith
qed

lemma ulp_subnormal:
  assumes "\<bar>a\<bar> < min_normal" and "a \<noteq> 0"
  shows "ulp a = min_subnormal"
proof -
  let ?e = "\<lfloor>log 2 \<bar>a\<bar>\<rfloor>"
  from floor_log2_bounds(1)[OF assms(2)] assms(1) have "(2 :: real) powr of_int ?e < 2 powr (- 1022)"
    unfolding min_normal_def by linarith
  then have "(of_int ?e :: real) < - 1022" by (simp only: powr_less_cancel_iff)
  then have "?e < - 1022" by linarith
  then have "ulp_exponent a = - 1074" by (simp add: ulp_exponent_def)
  then show ?thesis by (simp only: ulp_def min_subnormal_def) simp
qed


lemma round64_not_NaN: "round64 a \<noteq> NaN"
  by (simp add: round64_def Let_def signed_inf_def)

lemma round64_0: "round64 0 = Fin 0"
  by (simp add: round64_def)

lemma round64_Fin_D:
  assumes "round64 a = Fin r"
  shows "r = of_int (round_even (a / ulp a)) * ulp a" and "\<bar>r\<bar> < overflow_threshold"
proof -
  show "r = of_int (round_even (a / ulp a)) * ulp a"
  proof (cases "a = 0")
    case True
    with assms show ?thesis using round_even_of_int[of 0] by (simp add: round64_def)
  next
    case False
    with assms show ?thesis
      by (simp add: round64_def Let_def signed_inf_def split: if_splits)
  qed
  show "\<bar>r\<bar> < overflow_threshold"
  proof (cases "a = 0")
    case True
    with assms overflow_threshold_pos show ?thesis by (simp add: round64_def)
  next
    case False
    with assms show ?thesis
      by (simp add: round64_def Let_def signed_inf_def split: if_splits)
  qed
qed

lemma round64_Fin_I:
  assumes "\<bar>of_int (round_even (a / ulp a)) * ulp a\<bar> < overflow_threshold"
  shows "round64 a = Fin (of_int (round_even (a / ulp a)) * ulp a)"
proof (cases "a = 0")
  case True
  then show ?thesis using round_even_of_int[of 0] by (simp add: round64_def)
next
  case False
  with assms show ?thesis by (simp add: round64_def Let_def)
qed

lemma rounded_error: "\<bar>of_int (round_even (a / ulp a)) * ulp a - a\<bar> \<le> ulp a / 2"
proof -
  let ?n = "round_even (a / ulp a)"
  have q: "0 < ulp a" by (rule ulp_pos)
  have "\<bar>of_int ?n - a / ulp a\<bar> \<le> 1 / 2" by (rule round_even_error)
  then have "\<bar>of_int ?n - a / ulp a\<bar> * ulp a \<le> 1 / 2 * ulp a"
    using q by (simp only: mult_le_cancel_right_pos)
  moreover have "\<bar>of_int ?n - a / ulp a\<bar> * ulp a = \<bar>of_int ?n * ulp a - a\<bar>"
  proof -
    have "\<bar>of_int ?n - a / ulp a\<bar> * ulp a = \<bar>(of_int ?n - a / ulp a) * ulp a\<bar>"
      using q by (simp add: abs_mult)
    also have "(of_int ?n - a / ulp a) * ulp a = of_int ?n * ulp a - a"
      using q by (simp add: left_diff_distrib)
    finally show ?thesis .
  qed
  ultimately show ?thesis by simp
qed

lemma round64_error:
  assumes "round64 a = Fin r"
  shows "\<bar>r - a\<bar> \<le> ulp a / 2"
  using rounded_error[of a] round64_Fin_D(1)[OF assms] by simp

lemma ulp_le:
  assumes "a \<noteq> 0"
  shows "ulp a \<le> max (\<bar>a\<bar> / 2 ^ 52) min_subnormal"
proof (cases "min_normal \<le> \<bar>a\<bar>")
  case True
  from ulp_normal[OF True] have "ulp a \<le> \<bar>a\<bar> / 2 ^ 52"
    by (simp add: pos_le_divide_eq)
  then show ?thesis by simp
next
  case False
  then have "\<bar>a\<bar> < min_normal" by simp
  from ulp_subnormal[OF this assms] show ?thesis by simp
qed

lemma min_subnormal_le_1: "min_subnormal \<le> 1"
proof -
  have "(2 :: real) powr (- 1074) \<le> 2 powr 0" by (rule powr_mono) simp_all
  then show ?thesis by (simp add: min_subnormal_def)
qed

lemma overflow_threshold_ge: "k \<le> 1024 \<Longrightarrow> 2 ^ k \<le> overflow_threshold"
  unfolding overflow_threshold_def by (rule power_increasing) simp_all

lemma round64_no_overflow:
  assumes "\<bar>a\<bar> \<le> overflow_threshold / 2"
  shows "\<exists>r. round64 a = Fin r"
proof (cases "a = 0")
  case True
  then show ?thesis by (simp add: round64_def)
next
  case False
  let ?r = "of_int (round_even (a / ulp a)) * ulp a"
  have err: "\<bar>?r - a\<bar> \<le> ulp a / 2" by (rule rounded_error)
  have "(2 :: real) ^ 1 \<le> overflow_threshold" by (rule overflow_threshold_ge) simp
  then have big: "2 \<le> overflow_threshold" by simp
  have "\<bar>a\<bar> / 2 ^ 52 \<le> \<bar>a\<bar>"
    by (rule divide_le_eq_1_pos[THEN iffD2, THEN mult_left_mono[of _ 1 "\<bar>a\<bar>", simplified]] | simp add: field_simps)+
  with assms min_subnormal_le_1 big have "max (\<bar>a\<bar> / 2 ^ 52) min_subnormal \<le> overflow_threshold / 2"
    by linarith
  with ulp_le[OF False] have "ulp a \<le> overflow_threshold / 2" by linarith
  with err assms overflow_threshold_pos have "\<bar>?r\<bar> < overflow_threshold" by linarith
  then show ?thesis using round64_Fin_I by blast
qed


lemma round64_rel:
  assumes "min_normal \<le> \<bar>a\<bar>" and "round64 a = Fin r"
  shows "\<bar>r - a\<bar> \<le> \<bar>a\<bar> / 2 ^ 53"
proof -
  have "ulp a * 2 ^ 52 \<le> \<bar>a\<bar>" using assms(1) by (rule ulp_normal)
  then have "ulp a \<le> \<bar>a\<bar> / 2 ^ 52" by (simp add: pos_le_divide_eq)
  then have "ulp a / 2 \<le> \<bar>a\<bar> / 2 ^ 52 / 2" by simp
  also have "\<bar>a\<bar> / 2 ^ 52 / 2 = \<bar>a\<bar> / 2 ^ 53" by simp
  finally show ?thesis using round64_error[OF assms(2)] by linarith
qed

lemma round64_half:
  assumes "min_normal \<le> a" and "round64 a = Fin r"
  shows "a / 2 \<le> r" and "r \<le> 2 * a"
proof -
  from assms(1) min_normal_pos have pos: "0 < a" by linarith
  with assms(1) have "min_normal \<le> \<bar>a\<bar>" by simp
  from round64_rel[OF this assms(2)] pos have e: "\<bar>r - a\<bar> \<le> a / 2 ^ 53" by simp
  have "a / 2 ^ 53 \<le> a / 2 ^ 1" using pos
    by (intro divide_left_mono power_increasing) simp_all
  then have "a / 2 ^ 53 \<le> a / 2" by simp
  with e show "a / 2 \<le> r" and "r \<le> 2 * a" by linarith+
qed

lemma round64_nonneg:
  assumes "0 \<le> a" and "round64 a = Fin r"
  shows "0 \<le> r"
proof -
  from assms(1) ulp_pos[of a] have "of_int 0 \<le> a / ulp a" by simp
  then have "0 \<le> round_even (a / ulp a)" by (rule round_even_ge)
  then have "0 \<le> (of_int (round_even (a / ulp a)) :: real)" by simp
  with ulp_pos[of a] show ?thesis unfolding round64_Fin_D(1)[OF assms(2)]
    by (simp add: zero_le_mult_iff)
qed

lemma round64_nonpos:
  assumes "a \<le> 0" and "round64 a = Fin r"
  shows "r \<le> 0"
proof -
  from assms(1) ulp_pos[of a] have "a / ulp a \<le> of_int 0" by (simp add: divide_le_0_iff)
  then have "round_even (a / ulp a) \<le> 0" by (rule round_even_le)
  then have "(of_int (round_even (a / ulp a)) :: real) \<le> 0" by simp
  with ulp_pos[of a] show ?thesis unfolding round64_Fin_D(1)[OF assms(2)]
    by (simp add: mult_le_0_iff)
qed

lemma round64_cases: "round64 a = PInf \<and> 0 < a \<or> round64 a = NInf \<and> a < 0 \<or> (\<exists>r. round64 a = Fin r)"
  by (simp add: round64_def Let_def signed_inf_def)

lemma round64_grid_min:
  assumes "round64 a = Fin r" and "r \<noteq> 0"
  shows "min_subnormal \<le> \<bar>r\<bar>"
proof -
  let ?n = "round_even (a / ulp a)"
  have r: "r = of_int ?n * ulp a" using round64_Fin_D(1)[OF assms(1)] .
  with assms(2) have "?n \<noteq> 0" by auto
  then have "1 \<le> \<bar>?n\<bar>" by linarith
  then have "(1 :: real) \<le> \<bar>of_int ?n\<bar>" by (metis of_int_1_le_iff of_int_abs)
  then have "1 * ulp a \<le> \<bar>of_int ?n\<bar> * ulp a"
    using ulp_pos[of a] by (simp only: mult_le_cancel_right_pos)
  also have "\<bar>of_int ?n\<bar> * ulp a = \<bar>r\<bar>" using ulp_pos[of a] by (simp add: r abs_mult)
  finally show ?thesis using ulp_ge_min[of a] by linarith
qed

lemma round64_pos:
  assumes "min_subnormal \<le> a"
  shows "round64 a = PInf \<or> (\<exists>r. round64 a = Fin r \<and> 0 < r)"
proof -
  from assms min_subnormal_pos have pos: "0 < a" by linarith
  from round64_cases[of a] pos consider "round64 a = PInf" | r where "round64 a = Fin r"
    by auto
  then show ?thesis
  proof cases
    case 1
    then show ?thesis by simp
  next
    case 2
    have "0 < r"
    proof (cases "min_normal \<le> a")
      case True
      from round64_half(1)[OF True 2] pos show ?thesis by linarith
    next
      case False
      with pos have "\<bar>a\<bar> < min_normal" and "a \<noteq> 0" by simp_all
      then have u: "ulp a = min_subnormal" by (rule ulp_subnormal)
      with assms min_subnormal_pos have "of_int 1 \<le> a / ulp a" by (simp add: pos_le_divide_eq)
      then have "1 \<le> round_even (a / ulp a)" by (rule round_even_ge)
      then have "(0 :: real) < of_int (round_even (a / ulp a))" by simp
      with ulp_pos[of a] show ?thesis unfolding round64_Fin_D(1)[OF 2]
        by (simp add: zero_less_mult_iff)
    qed
    with 2 show ?thesis by simp
  qed
qed

lemma round64_neg:
  assumes "a \<le> - min_subnormal"
  shows "round64 a = NInf \<or> (\<exists>r. round64 a = Fin r \<and> r < 0)"
proof -
  from assms min_subnormal_pos have neg: "a < 0" by linarith
  from round64_cases[of a] neg consider "round64 a = NInf" | r where "round64 a = Fin r"
    by auto
  then show ?thesis
  proof cases
    case 1
    then show ?thesis by simp
  next
    case 2
    have "r < 0"
    proof (cases "min_normal \<le> \<bar>a\<bar>")
      case True
      from round64_rel[OF True 2] neg have e: "\<bar>r - a\<bar> \<le> - a / 2 ^ 53" by simp
      have "- a / 2 ^ 53 \<le> - a / 2 ^ 1" using neg
        by (intro divide_left_mono power_increasing) simp_all
      with e neg show ?thesis by simp
    next
      case False
      with neg have "\<bar>a\<bar> < min_normal" and "a \<noteq> 0" by simp_all
      then have u: "ulp a = min_subnormal" by (rule ulp_subnormal)
      with assms min_subnormal_pos have "a / ulp a \<le> of_int (- 1)"
        by (simp add: pos_divide_le_eq)
      then have "round_even (a / ulp a) \<le> - 1" by (rule round_even_le)
      then have "(of_int (round_even (a / ulp a)) :: real) < 0" by simp
      with ulp_pos[of a] show ?thesis unfolding round64_Fin_D(1)[OF 2]
        by (simp add: mult_less_0_iff)
    qed
    with 2 show ?thesis by simp
  qed
qed


lemma to_double_Fin_D: "to_double a = Fin r \<Longrightarrow> \<exists>b. a = Fin b \<and> round64 b = Fin r"
  by (cases a) simp_all


lemma length_f64_Fin_D:
  assumes "length_f64 v = Fin l"
  shows "\<exists>p q A B S. v = \<lparr>x = Fin p, y = Fin q\<rparr> \<and> round64 (p * p) = Fin A \<and> round64 (q * q) = Fin B
           \<and> round64 (A + B) = Fin S \<and> round64 (sqrt S) = Fin l \<and> 0 \<le> A \<and> 0 \<le> B \<and> 0 \<le> S"
proof -
  obtain a b where v: "v = \<lparr>x = a, y = b\<rparr>" by (cases v) simp
  from assms obtain s where s: "Math_sqrt (fadd (fmul a a) (fmul b b)) = Fin s"
    and l: "round64 s = Fin l"
    unfolding length_f64_def fsqrt_def v using to_double_Fin_D by fastforce
  from s obtain S where S: "fadd (fmul a a) (fmul b b) = Fin S" and S0: "0 \<le> S" and sS: "s = sqrt S"
    by (cases "fadd (fmul a a) (fmul b b)") (auto split: if_splits)
  from S obtain T where T: "fmul a a + fmul b b = Fin T" and TS: "round64 T = Fin S"
    unfolding fadd_def using to_double_Fin_D by blast
  from T obtain A B where A: "fmul a a = Fin A" and B: "fmul b b = Fin B" and TAB: "T = A + B"
    by (cases "fmul a a"; cases "fmul b b") auto
  from A obtain p where p: "a = Fin p" and Ap: "round64 (p * p) = Fin A"
    unfolding fmul_def by (cases a) (auto dest!: to_double_Fin_D simp: signed_inf_def)
  from B obtain q where q: "b = Fin q" and Bq: "round64 (q * q) = Fin B"
    unfolding fmul_def by (cases b) (auto dest!: to_double_Fin_D simp: signed_inf_def)
  have "0 \<le> A" using round64_nonneg[OF _ Ap] by simp
  moreover have "0 \<le> B" using round64_nonneg[OF _ Bq] by simp
  ultimately show ?thesis using v p q Ap Bq TS TAB l sS S0 by auto
qed


lemma overflow_threshold_powr: "overflow_threshold = 2 powr 1024"
proof -
  have "(2 :: real) powr 1024 = 2 ^ 1024" by (rule powr_numeral) simp
  then show ?thesis by (simp only: overflow_threshold_def)
qed

lemma sqrt_min_subnormal: "sqrt min_subnormal = 2 powr (- 537)"
proof -
  have "sqrt min_subnormal = min_subnormal powr (1 / 2)"
    using min_subnormal_pos by (simp only: powr_half_sqrt less_imp_le)
  also have "\<dots> = 2 powr (- 1074 * (1 / 2))"
    by (simp only: min_subnormal_def powr_powr)
  also have "(- 1074 * (1 / 2) :: real) = - 537" by simp
  finally show ?thesis .
qed

lemma min_normal_le_sqrt_min_subnormal: "min_normal \<le> sqrt min_subnormal"
  unfolding sqrt_min_subnormal min_normal_def by (rule powr_mono) simp_all

lemma inverse_sqrt_min_subnormal: "4 / sqrt min_subnormal + 1 \<le> overflow_threshold / 2"
proof -
  have "4 / sqrt min_subnormal = 2 powr 2 * 2 powr 537"
    unfolding sqrt_min_subnormal by (simp add: powr_minus_divide)
  also have "\<dots> = 2 powr 539" by (simp only: powr_add[symmetric]) simp
  also have "\<dots> \<le> 2 powr 1022" by (rule powr_mono) simp_all
  finally have a: "4 / sqrt min_subnormal \<le> 2 powr 1022" .
  have "(2 :: real) powr 0 \<le> 2 powr 1022" by (rule powr_mono) simp_all
  then have b: "(1 :: real) \<le> 2 powr 1022" by simp
  have "(2 :: real) powr 1022 * 2 powr 1 = 2 powr 1023" by (simp only: powr_add[symmetric]) simp
  then have c: "(2 :: real) powr 1022 + 2 powr 1022 = 2 powr 1023" by simp
  have "(2 :: real) powr 1023 * 2 powr 1 = 2 powr 1024" by (simp only: powr_add[symmetric]) simp
  then have d: "(2 :: real) powr 1023 = overflow_threshold / 2"
    by (simp add: overflow_threshold_powr)
  from a b c d show ?thesis by linarith
qed

lemma overflow_times_min_subnormal: "overflow_threshold * min_subnormal \<le> 1"
proof -
  have "overflow_threshold * min_subnormal = 2 powr (1024 + - 1074)"
    by (simp only: overflow_threshold_powr min_subnormal_def powr_add)
  also have "\<dots> \<le> 2 powr 0" by (rule powr_mono) simp_all
  finally show ?thesis by simp
qed

lemma two_min_normal_le_1: "2 * min_normal \<le> 1"
proof -
  have "2 powr 1 * min_normal = 2 powr (1 + - 1022)"
    by (simp only: min_normal_def powr_add)
  also have "\<dots> \<le> 2 powr 0" by (rule powr_mono) simp_all
  finally show ?thesis by simp
qed

lemma overflow_threshold_ge_32: "32 \<le> overflow_threshold / 2"
proof -
  have "(2 :: real) ^ 6 \<le> overflow_threshold" by (rule overflow_threshold_ge) simp
  then show ?thesis by simp
qed


lemma sqrt_round64_lower:
  assumes "round64 T = Fin S" and "0 < S" and "round64 (sqrt S) = Fin l"
  shows "sqrt S / 2 \<le> l" and "sqrt min_subnormal / 2 \<le> l"
proof -
  from assms(2) have "S \<noteq> 0" by simp
  from round64_grid_min[OF assms(1) this] assms(2) have "min_subnormal \<le> S" by simp
  then have m: "sqrt min_subnormal \<le> sqrt S" by simp
  with min_normal_le_sqrt_min_subnormal have "min_normal \<le> sqrt S" by linarith
  from round64_half(1)[OF this assms(3)] show "sqrt S / 2 \<le> l" .
  with m show "sqrt min_subnormal / 2 \<le> l" by linarith
qed

lemma length_f64_lower:
  assumes "length_f64 v = Fin l" and "l \<noteq> 0"
  shows "sqrt min_subnormal / 2 \<le> l"
proof -
  from length_f64_Fin_D[OF assms(1)] obtain A B S where
    S: "round64 (A + B) = Fin S" and l: "round64 (sqrt S) = Fin l" and S0: "0 \<le> S"
    by blast
  have "S \<noteq> 0"
  proof
    assume "S = 0"
    with l have "l = 0" by (simp add: round64_0)
    with assms(2) show False by simp
  qed
  with S0 have "0 < S" by simp
  from sqrt_round64_lower(2)[OF S this l] show ?thesis .
qed

lemma inverse_length_f64:
  assumes "sqrt min_subnormal / 2 \<le> l"
  shows "\<exists>r. round64 (1 / l) = Fin r \<and> 0 \<le> r \<and> r \<le> 2 / l + min_subnormal"
proof -
  have sp: "0 < sqrt min_subnormal" using min_subnormal_pos by simp
  with assms have lp: "0 < l" by linarith
  have "0 < sqrt min_subnormal / 2" using sp by simp
  then have "1 / l \<le> 1 / (sqrt min_subnormal / 2)"
    using assms by (intro frac_le) simp_all
  also have "\<dots> = 2 / sqrt min_subnormal" by simp
  also have "\<dots> \<le> 4 / sqrt min_subnormal" using sp by (simp add: divide_le_cancel)
  finally have "1 / l \<le> overflow_threshold / 2" using inverse_sqrt_min_subnormal by linarith
  moreover have ip: "0 < 1 / l" using lp by simp
  ultimately have "\<bar>1 / l\<bar> \<le> overflow_threshold / 2" by simp
  from round64_no_overflow[OF this] obtain r where r: "round64 (1 / l) = Fin r" by blast
  have r0: "0 \<le> r" using round64_nonneg[OF _ r] ip by simp
  have "r \<le> 2 / l + min_subnormal"
  proof (cases "min_normal \<le> 1 / l")
    case True
    from round64_half(2)[OF True r] min_subnormal_pos show ?thesis by simp
  next
    case False
    with ip have "\<bar>1 / l\<bar> < min_normal" and "1 / l \<noteq> 0" by simp_all
    then have "ulp (1 / l) = min_subnormal" by (rule ulp_subnormal)
    with round64_error[OF r] have "\<bar>r - 1 / l\<bar> \<le> min_subnormal / 2" by simp
    moreover have "1 / l \<le> 2 / l" using lp by (simp add: divide_right_mono)
    ultimately show ?thesis using min_subnormal_pos by linarith
  qed
  with r r0 show ?thesis by blast
qed

lemma component_bound:
  assumes "round64 (p * p) = Fin A" and "0 \<le> B" and "round64 (A + B) = Fin S"
    and "round64 (sqrt S) = Fin l"
  shows "\<bar>p\<bar> \<le> 4 * l \<or> \<bar>p\<bar> \<le> 1"
proof (cases "2 * min_normal \<le> p * p")
  case True
  with min_normal_pos have n: "min_normal \<le> p * p" by linarith
  define t where "t = p * p"
  from round64_half(1)[OF n assms(1)] have A: "t / 2 \<le> A" by (simp add: t_def)
  from True have "2 * min_normal \<le> t" by (simp add: t_def)
  with A assms(2) have "min_normal \<le> A + B" by linarith
  from round64_half(1)[OF this assms(3)] have "(A + B) / 2 \<le> S" .
  moreover have "t / 4 \<le> (A + B) / 2" using A assms(2) by simp
  ultimately have "t / 4 \<le> S" by (rule order_trans[rotated])
  then have S: "p * p / 4 \<le> S" by (simp add: t_def)
  with True min_normal_pos have Sp: "0 < S" by linarith
  from sqrt_round64_lower(1)[OF assms(3) Sp assms(4)] have l: "sqrt S / 2 \<le> l" .
  have "sqrt (p * p / 4) \<le> sqrt S" using S by simp
  moreover have "sqrt (p * p / 4) = \<bar>p\<bar> / 2"
    by (simp add: real_sqrt_divide)
  ultimately show ?thesis using l by linarith
next
  case False
  with two_min_normal_le_1 have "p * p < 1" by linarith
  then have "\<bar>p\<bar> \<le> 1"
    by (metis abs_le_square_iff abs_one less_imp_le mult_1 power2_eq_square)
  then show ?thesis by simp
qed

lemma component_no_overflow:
  assumes "sqrt min_subnormal / 2 \<le> l" and "l < overflow_threshold"
    and "0 \<le> r" and "r \<le> 2 / l + min_subnormal"
    and "\<bar>p\<bar> \<le> 4 * l \<or> \<bar>p\<bar> \<le> 1"
  shows "\<bar>r * p\<bar> \<le> overflow_threshold / 2"
proof -
  have sp: "0 < sqrt min_subnormal" using min_subnormal_pos by simp
  with assms(1) have lp: "0 < l" by linarith
  from assms(5) show ?thesis
  proof
    assume p: "\<bar>p\<bar> \<le> 4 * l"
    have "\<bar>r * p\<bar> = r * \<bar>p\<bar>" using assms(3) by (simp add: abs_mult)
    also have "\<dots> \<le> (2 / l + min_subnormal) * (4 * l)"
      using assms(3,4) p lp by (intro mult_mono) simp_all
    also have "\<dots> = 8 + 4 * (l * min_subnormal)" using lp by (simp add: algebra_simps)
    also have "l * min_subnormal \<le> overflow_threshold * min_subnormal"
      using assms(2) min_subnormal_pos by simp
    finally have "\<bar>r * p\<bar> \<le> 8 + 4 * 1" using overflow_times_min_subnormal by linarith
    with overflow_threshold_ge_32 show ?thesis by linarith
  next
    assume p: "\<bar>p\<bar> \<le> 1"
    have "0 < sqrt min_subnormal / 2" using sp by simp
    then have "1 / l \<le> 1 / (sqrt min_subnormal / 2)"
      using assms(1) by (intro frac_le) simp_all
    then have "2 / l \<le> 4 / sqrt min_subnormal" by simp
    with assms(4) min_subnormal_le_1 have "r \<le> 4 / sqrt min_subnormal + 1" by linarith
    with inverse_sqrt_min_subnormal have r: "r \<le> overflow_threshold / 2" by linarith
    have "\<bar>r * p\<bar> = r * \<bar>p\<bar>" using assms(3) by (simp add: abs_mult)
    also have "\<dots> \<le> r * 1" using assms(3) p by (intro mult_left_mono) simp_all
    finally show ?thesis using r by simp
  qed
qed


lemma ulp_eq:
  assumes "2 powr of_int e \<le> \<bar>a\<bar>" and "\<bar>a\<bar> < 2 powr (of_int e + 1)" and "- 1022 \<le> e"
  shows "ulp a = 2 powr of_int (e - 52)"
proof -
  have "(0 :: real) < 2 powr of_int e" by simp
  with assms(1) have pos: "0 < \<bar>a\<bar>" by linarith
  from floor_log_eq_powr_iff[OF pos, of 2 e] assms(1,2) have "\<lfloor>log 2 \<bar>a\<bar>\<rfloor> = e" by simp
  with assms(3) show ?thesis by (simp add: ulp_def ulp_exponent_def)
qed

lemma round64_eval:
  assumes "ulp a = u" and "\<bar>of_int n - a / u\<bar> < 1 / 2" and "\<bar>of_int n * u\<bar> < overflow_threshold"
  shows "round64 a = Fin (of_int n * u)"
proof -
  from assms(2) have "round_even (a / u) = n" by (rule round_even_unique)
  with round64_Fin_I[of a] assms(1,3) show ?thesis by simp
qed

lemma round64_eval_tie:
  assumes "ulp a = u" and "a / u = of_int n + 1 / 2" and "odd n"
    and "\<bar>of_int (n + 1) * u\<bar> < overflow_threshold"
  shows "round64 a = Fin (of_int (n + 1) * u)"
proof -
  from round_even_tie[OF assms(2)] assms(3) have "round_even (a / u) = n + 1" by simp
  with round64_Fin_I[of a] assms(1,4) show ?thesis by simp
qed

lemma round64_of_int:
  assumes "\<bar>n\<bar> < 2 ^ 53"
  shows "round64 (of_int n) = Fin (of_int n)"
proof (cases "n = 0")
  case True
  then show ?thesis by (simp add: round64_0)
next
  case False
  let ?a = "of_int n :: real"
  let ?e = "\<lfloor>log 2 \<bar>?a\<bar>\<rfloor>"
  have nz: "?a \<noteq> 0" using False by simp
  have lt: "\<bar>?a\<bar> < 2 ^ 53"
  proof -
    from assms have "(of_int \<bar>n\<bar> :: real) < of_int (2 ^ 53)" by (simp only: of_int_less_iff)
    then show ?thesis by simp
  qed
  have "(2 :: real) powr of_int ?e < 2 powr 53"
    using floor_log2_bounds(1)[OF nz] lt by simp
  then have "(of_int ?e :: real) < 53" by (simp only: powr_less_cancel_iff)
  then have "?e \<le> 52" by linarith
  then have ue: "ulp_exponent ?a \<le> 0" by (simp add: ulp_exponent_def)
  define k where "k = nat (- ulp_exponent ?a)"
  have "ulp ?a = 2 powr (- real k)" using ue by (simp add: ulp_def k_def)
  also have "\<dots> = 1 / 2 ^ k" by (simp add: powr_minus_divide powr_realpow)
  finally have u: "ulp ?a = 1 / 2 ^ k" .
  then have "?a / ulp ?a = of_int (n * 2 ^ k)" by simp
  then have "round_even (?a / ulp ?a) = n * 2 ^ k" by (simp only: round_even_of_int)
  then have r: "of_int (round_even (?a / ulp ?a)) * ulp ?a = ?a" by (simp add: u)
  have "(2 :: real) ^ 53 \<le> overflow_threshold" by (rule overflow_threshold_ge) simp
  with lt have "\<bar>?a\<bar> < overflow_threshold" by linarith
  with round64_Fin_I[of ?a] r show ?thesis by simp
qed


lemma norm_f64_Fin:
  assumes "length_f64 v = Fin l" and "l \<noteq> 0"
  shows "\<exists>p q r a b. v = \<lparr>x = Fin p, y = Fin q\<rparr> \<and> round64 (1 / l) = Fin r \<and> 0 \<le> r
           \<and> round64 (r * p) = Fin a \<and> round64 (r * q) = Fin b
           \<and> fdiv (Fin 1) (length_f64 v) = Fin r
           \<and> norm_f64 v = \<lparr>x = Fin a, y = Fin b\<rparr>"
proof -
  from length_f64_Fin_D[OF assms(1)] obtain p q A B S where
    v: "v = \<lparr>x = Fin p, y = Fin q\<rparr>" and A: "round64 (p * p) = Fin A" and B: "round64 (q * q) = Fin B"
    and S: "round64 (A + B) = Fin S" and l: "round64 (sqrt S) = Fin l"
    and A0: "0 \<le> A" and B0: "0 \<le> B"
    by blast
  from length_f64_lower[OF assms] have low: "sqrt min_subnormal / 2 \<le> l" .
  have sp: "0 < sqrt min_subnormal" using min_subnormal_pos by simp
  from round64_Fin_D(2)[OF l] have up: "l < overflow_threshold" by simp
  from inverse_length_f64[OF low] obtain r where
    r: "round64 (1 / l) = Fin r" and r0: "0 \<le> r" and r1: "r \<le> 2 / l + min_subnormal"
    by blast
  from component_bound[OF A B0 S l] have bp: "\<bar>p\<bar> \<le> 4 * l \<or> \<bar>p\<bar> \<le> 1" .
  from S have S': "round64 (B + A) = Fin S" by (simp add: add.commute)
  from component_bound[OF B A0 S' l] have bq: "\<bar>q\<bar> \<le> 4 * l \<or> \<bar>q\<bar> \<le> 1" .
  from round64_no_overflow[OF component_no_overflow[OF low up r0 r1 bp]]
  obtain a where a: "round64 (r * p) = Fin a" by blast
  from round64_no_overflow[OF component_no_overflow[OF low up r0 r1 bq]]
  obtain b where b: "round64 (r * q) = Fin b" by blast
  have d: "fdiv (Fin 1) (length_f64 v) = Fin r"
    using assms r by (simp add: fdiv_def)
  have "norm_f64 v = \<lparr>x = Fin a, y = Fin b\<rparr>"
    using assms r a b by (simp add: norm_f64_def scalarMult_f64_def fdiv_def fmul_def v)
  with v r r0 a b d show ?thesis by blast
qed



lemma sqrt_9: "sqrt 9 = 3"
proof -
  have "sqrt 9 = sqrt (3 * 3)" by simp
  also have "\<dots> = 3" by (simp only: real_sqrt_abs2)
  finally show ?thesis .
qed

lemma round64_numeral: "\<bar>numeral k :: int\<bar> < 2 ^ 53 \<Longrightarrow> round64 (numeral k) = Fin (numeral k)"
  using round64_of_int[of "numeral k"] by simp

lemma round64_1: "round64 1 = Fin 1"
  using round64_of_int[of 1] by simp



lemma length_f64_3_0: "length_f64 \<lparr>x = Fin 3, y = Fin 0\<rparr> = Fin 3"
  by (simp add: length_f64_def fmul_def fadd_def fsqrt_def round64_numeral round64_0 sqrt_9)




lemma round64_on_grid:
  assumes "r = of_int m * ulp r" and "\<bar>r\<bar> < overflow_threshold"
  shows "round64 r = Fin r"
proof -
  have "r / ulp r = of_int m" using assms(1) ulp_pos[of r]
    by (metis nonzero_mult_div_cancel_right less_numeral_extra(3))
  then have "round_even (r / ulp r) = m" by (simp only: round_even_of_int)
  with round64_Fin_I[of r] assms show ?thesis by simp
qed



subsection \<open>Doubles and their neighbours\<close>

text \<open>
  Rounding leaves a double as it is, two different positive doubles differ by at least one
  unit in the last place of the smaller, and their quotient does not round to 1.
\<close>

lemma rounded_mantissa_bound:
  assumes "a \<noteq> 0"
  shows "\<bar>of_int (round_even (a / ulp a)) :: real\<bar> \<le> 2 ^ 53"
proof -
  from ulp_scaled_gt[OF assms] ulp_pos[of a] have "\<bar>a\<bar> / ulp a < 2 ^ 53"
    by (simp add: pos_divide_less_eq mult.commute)
  then have b: "\<bar>a / ulp a\<bar> < 2 ^ 53" using ulp_pos[of a] by simp
  then have le: "a / ulp a \<le> 2 ^ 53" and ge: "- (2 ^ 53) \<le> a / ulp a" by linarith+
  from le have "a / ulp a \<le> of_int (2 ^ 53)" by simp
  then have up: "round_even (a / ulp a) \<le> 2 ^ 53" by (rule round_even_le)
  from ge have "of_int (- (2 ^ 53)) \<le> a / ulp a" by simp
  then have "- (2 ^ 53) \<le> round_even (a / ulp a)" by (rule round_even_ge)
  with up have "\<bar>round_even (a / ulp a)\<bar> \<le> 2 ^ 53" by linarith
  then have "(of_int \<bar>round_even (a / ulp a)\<bar> :: real) \<le> of_int (2 ^ 53)"
    by (simp only: of_int_le_iff)
  then show ?thesis by simp
qed

lemma round64_idem:
  assumes "round64 a = Fin r"
  shows "round64 r = Fin r"
proof (cases "r = 0")
  case True
  then show ?thesis by (simp add: round64_0)
next
  case False
  let ?n = "round_even (a / ulp a)"
  have r: "r = of_int ?n * ulp a" using round64_Fin_D(1)[OF assms] .
  have ov: "\<bar>r\<bar> < overflow_threshold" using round64_Fin_D(2)[OF assms] .
  from False assms have nz: "a \<noteq> 0" by (auto simp: round64_0)
  have up: "\<bar>of_int ?n :: real\<bar> \<le> 2 ^ 53" using rounded_mantissa_bound[OF nz] .
  have absr: "\<bar>r\<bar> = \<bar>of_int ?n\<bar> * ulp a" using ulp_pos[of a] by (simp add: r abs_mult)
  have "\<exists>m. r = of_int m * ulp r"
  proof (cases "min_normal \<le> \<bar>a\<bar>")
    case True
    let ?e = "\<lfloor>log 2 \<bar>a\<bar>\<rfloor>"
    from floor_log2_bounds[OF nz] True have "(2 :: real) powr (- 1022) < 2 powr (of_int ?e + 1)"
      unfolding min_normal_def by linarith
    then have "(- 1022 :: real) < of_int ?e + 1" by (simp only: powr_less_cancel_iff)
    then have e: "- 1022 \<le> ?e" by linarith
    then have u: "ulp a = 2 powr of_int (?e - 52)" by (simp add: ulp_def ulp_exponent_def)
    have u52: "ulp a * 2 ^ 52 = 2 powr of_int ?e" unfolding u by (simp add: powr_diff)
    have u53: "ulp a * 2 ^ 53 = 2 powr (of_int ?e + 1)" unfolding u by (simp add: powr_diff powr_add)
    from ulp_normal[OF True] ulp_pos[of a] have "2 ^ 52 \<le> \<bar>a\<bar> / ulp a"
      by (simp add: pos_le_divide_eq mult.commute)
    then have "2 ^ 52 \<le> \<bar>a / ulp a\<bar>" using ulp_pos[of a] by simp
    then have "2 ^ 52 \<le> a / ulp a \<or> a / ulp a \<le> - (2 ^ 52)" by linarith
    then have "of_int (2 ^ 52) \<le> a / ulp a \<or> a / ulp a \<le> of_int (- (2 ^ 52))" by simp
    then have "2 ^ 52 \<le> ?n \<or> ?n \<le> - (2 ^ 52)"
      using round_even_ge round_even_le by blast
    then have "2 ^ 52 \<le> \<bar>?n\<bar>" by linarith
    then have "(of_int (2 ^ 52) :: real) \<le> of_int \<bar>?n\<bar>" by (simp only: of_int_le_iff)
    then have low: "(2 :: real) ^ 52 \<le> \<bar>of_int ?n\<bar>" by simp
    have rl: "2 powr of_int ?e \<le> \<bar>r\<bar>"
      unfolding absr u52[symmetric] using low ulp_pos[of a] by (simp add: mult.commute)
    have ru: "\<bar>r\<bar> \<le> 2 powr (of_int ?e + 1)"
      unfolding absr u53[symmetric] using up ulp_pos[of a] by (simp add: mult.commute)
    show ?thesis
    proof (cases "\<bar>r\<bar> < 2 powr (of_int ?e + 1)")
      case True
      from ulp_eq[OF rl True e] u have "ulp r = ulp a" by simp
      with r show ?thesis by auto
    next
      case False
      with ru have eq: "\<bar>r\<bar> = 2 powr (of_int ?e + 1)" by simp
      have "2 powr of_int (?e + 1) \<le> \<bar>r\<bar>" using eq by simp
      moreover have "\<bar>r\<bar> < 2 powr (of_int (?e + 1) + 1)" using eq by simp
      moreover have "- 1022 \<le> ?e + 1" using e by linarith
      ultimately have "ulp r = 2 powr of_int (?e + 1 - 52)" by (rule ulp_eq)
      also have "\<dots> = 2 * ulp a" unfolding u by (simp add: powr_diff powr_add)
      finally have ur: "ulp r = 2 * ulp a" .
      from eq have "\<bar>of_int ?n\<bar> * ulp a = 2 ^ 53 * ulp a" using absr u53 by (simp add: mult.commute)
      then have "\<bar>of_int ?n :: real\<bar> = 2 ^ 53" using ulp_pos[of a] by simp
      then have "(of_int ?n :: real) = 2 ^ 53 \<or> (of_int ?n :: real) = - (2 ^ 53)" by linarith
      then show ?thesis
      proof
        assume "(of_int ?n :: real) = 2 ^ 53"
        with r have "r = 2 ^ 53 * ulp a" by simp
        also have "\<dots> = of_int (2 ^ 52) * (2 * ulp a)" by simp
        finally have e1: "r = of_int (2 ^ 52) * (2 * ulp a)" .
        have e2: "of_int (2 ^ 52) * (2 * ulp a) = of_int (2 ^ 52) * ulp r" by (simp only: ur)
        have "r = of_int (2 ^ 52) * ulp r" by (rule trans[OF e1 e2])
        then show ?thesis by blast
      next
        assume "(of_int ?n :: real) = - (2 ^ 53)"
        with r have "r = - (2 ^ 53) * ulp a" by simp
        also have "\<dots> = of_int (- (2 ^ 52)) * (2 * ulp a)" by simp
        finally have e1: "r = of_int (- (2 ^ 52)) * (2 * ulp a)" .
        have e2: "of_int (- (2 ^ 52)) * (2 * ulp a) = of_int (- (2 ^ 52)) * ulp r" by (simp only: ur)
        have "r = of_int (- (2 ^ 52)) * ulp r" by (rule trans[OF e1 e2])
        then show ?thesis by blast
      qed
    qed
  next
    case False
    then have sub: "\<bar>a\<bar> < min_normal" by simp
    from ulp_subnormal[OF sub nz] have u: "ulp a = min_subnormal" .
    from sub have "\<bar>a\<bar> / min_subnormal < 2 ^ 52" using min_subnormal_pos
      by (simp add: min_normal_eq pos_divide_less_eq)
    then have b: "\<bar>a / ulp a\<bar> < 2 ^ 52" using min_subnormal_pos by (simp add: u)
    then have le: "a / ulp a \<le> 2 ^ 52" and ge: "- (2 ^ 52) \<le> a / ulp a" by linarith+
    from le have "a / ulp a \<le> of_int (2 ^ 52)" by simp
    then have up': "?n \<le> 2 ^ 52" by (rule round_even_le)
    from ge have "of_int (- (2 ^ 52)) \<le> a / ulp a" by simp
    then have "- (2 ^ 52) \<le> ?n" by (rule round_even_ge)
    with up' have "\<bar>?n\<bar> \<le> 2 ^ 52" by linarith
    then have "(of_int \<bar>?n\<bar> :: real) \<le> of_int (2 ^ 52)" by (simp only: of_int_le_iff)
    then have "\<bar>of_int ?n :: real\<bar> \<le> 2 ^ 52" by simp
    then have "\<bar>r\<bar> \<le> 2 ^ 52 * min_subnormal"
      unfolding absr u using min_subnormal_pos by simp
    then have rn: "\<bar>r\<bar> \<le> min_normal" by (simp add: min_normal_eq mult.commute)
    have "ulp r = min_subnormal"
    proof (cases "\<bar>r\<bar> < min_normal")
      case True
      from ulp_subnormal[OF True \<open>r \<noteq> 0\<close>] show ?thesis .
    next
      case False
      with rn have eq: "\<bar>r\<bar> = 2 powr (- 1022)" by (simp add: min_normal_def)
      have "2 powr of_int (- 1022) \<le> \<bar>r\<bar>" using eq by simp
      moreover have "\<bar>r\<bar> < 2 powr (of_int (- 1022) + 1)" unfolding eq
        by (simp only: of_int_minus of_int_numeral powr_less_cancel_iff)
      moreover have "(- 1022 :: int) \<le> - 1022" by simp
      ultimately have "ulp r = 2 powr of_int (- 1022 - 52)" by (rule ulp_eq)
      then show ?thesis by (simp add: min_subnormal_def)
    qed
    with r u show ?thesis by auto
  qed
  then obtain m where "r = of_int m * ulp r" ..
  from round64_on_grid[OF this ov] show ?thesis .
qed


lemma round_even_gt_half:
  assumes "of_int n + 1 / 2 < a"
  shows "n + 1 \<le> round_even a"
proof (cases "n + 1 \<le> \<lfloor>a\<rfloor>")
  case True
  moreover have "\<lfloor>a\<rfloor> \<le> round_even a" by (simp add: round_even_def Let_def)
  ultimately show ?thesis by linarith
next
  case False
  moreover from assms have "n \<le> \<lfloor>a\<rfloor>" by linarith
  ultimately have f: "\<lfloor>a\<rfloor> = n" by linarith
  with assms have "1 / 2 < a - of_int \<lfloor>a\<rfloor>" by simp
  then have "round_even a = \<lfloor>a\<rfloor> + 1" by (simp add: round_even_def Let_def)
  with f show ?thesis by simp
qed

lemma ulp_ratio:
  assumes "a \<noteq> 0" and "\<bar>a\<bar> \<le> \<bar>b\<bar>"
  shows "\<exists>k :: nat. ulp b = 2 ^ k * ulp a"
proof -
  from assms have pa: "0 < \<bar>a\<bar>" and pb: "0 < \<bar>b\<bar>" by simp_all
  from assms(2) pa have "log 2 \<bar>a\<bar> \<le> log 2 \<bar>b\<bar>" by simp
  then have "\<lfloor>log 2 \<bar>a\<bar>\<rfloor> \<le> \<lfloor>log 2 \<bar>b\<bar>\<rfloor>" by (rule floor_mono)
  then have le: "ulp_exponent a \<le> ulp_exponent b" by (simp add: ulp_exponent_def)
  define k where "k = nat (ulp_exponent b - ulp_exponent a)"
  have "of_int (ulp_exponent b) = of_int (ulp_exponent a) + real k"
    using le by (simp add: k_def)
  then have "ulp b = 2 powr (of_int (ulp_exponent a) + real k)" by (simp add: ulp_def)
  also have "\<dots> = ulp a * 2 ^ k" by (simp add: powr_add powr_realpow ulp_def)
  finally show ?thesis by (auto simp: mult.commute)
qed

lemma double_gap:
  assumes "round64 a = Fin a" and "round64 b = Fin b" and "0 < b" and "b < a"
  shows "ulp b \<le> a - b"
proof -
  obtain ma where ma: "a = of_int ma * ulp a" using round64_Fin_D(1)[OF assms(1)] by blast
  obtain mb where mb: "b = of_int mb * ulp b" using round64_Fin_D(1)[OF assms(2)] by blast
  from assms(3,4) have "b \<noteq> 0" and "\<bar>b\<bar> \<le> \<bar>a\<bar>" by simp_all
  from ulp_ratio[OF this] obtain k :: nat where k: "ulp a = 2 ^ k * ulp b" by blast
  have "a - b = of_int ma * (2 ^ k * ulp b) - of_int mb * ulp b"
    using ma mb k by simp
  also have "\<dots> = of_int (ma * 2 ^ k - mb) * ulp b" by (simp add: algebra_simps)
  finally have d: "a - b = of_int (ma * 2 ^ k - mb) * ulp b" .
  from assms(4) have "0 < a - b" by simp
  with d ulp_pos[of b] have "0 < (of_int (ma * 2 ^ k - mb) :: real)"
    by (simp add: zero_less_mult_iff)
  then have "0 < ma * 2 ^ k - mb" by (simp only: of_int_0_less_iff)
  then have "1 \<le> ma * 2 ^ k - mb" by linarith
  then have "(1 :: real) \<le> of_int (ma * 2 ^ k - mb)" by (simp only: of_int_1_le_iff)
  then have "1 * ulp b \<le> of_int (ma * 2 ^ k - mb) * ulp b"
    using ulp_pos[of b] by (simp only: mult_le_cancel_right_pos)
  with d show ?thesis by simp
qed

lemma double_ratio_gt:
  assumes "round64 a = Fin a" and "round64 b = Fin b" and "0 < b" and "b < a"
  shows "1 + 1 / 2 ^ 53 < a / b"
proof -
  from assms(3) have nz: "b \<noteq> 0" by simp
  from ulp_scaled_gt[OF nz] assms(3) have "b / 2 ^ 53 < ulp b"
    by (simp add: pos_divide_less_eq)
  with double_gap[OF assms] have "b / 2 ^ 53 < a - b" by linarith
  then have "b * (1 + 1 / 2 ^ 53) < a" by (simp add: algebra_simps)
  then show ?thesis using assms(3) by (simp add: pos_less_divide_eq mult.commute)
qed

lemma double_ratio_le:
  assumes "round64 a = Fin a" and "round64 b = Fin b" and "0 < b" and "b < a"
  shows "b / a \<le> 1 - 1 / 2 ^ 53"
proof -
  from assms(3,4) have pa: "0 < a" by simp
  from assms(3) have nz: "b \<noteq> 0" by simp
  have "b \<le> a * (1 - 1 / 2 ^ 53)"
  proof (cases "a \<le> ulp b * 2 ^ 53")
    case True
    then have "a / 2 ^ 53 \<le> ulp b" by (simp add: pos_divide_le_eq)
    with double_gap[OF assms] have "a / 2 ^ 53 \<le> a - b" by linarith
    then show ?thesis by (simp add: algebra_simps)
  next
    case False
    obtain mb where mb: "b = of_int mb * ulp b" using round64_Fin_D(1)[OF assms(2)] by blast
    from ulp_scaled_gt[OF nz] assms(3) mb have "of_int mb * ulp b < 2 ^ 53 * ulp b"
      by (simp add: mult.commute)
    then have "(of_int mb :: real) < 2 ^ 53" using ulp_pos[of b]
      by (simp only: mult_less_cancel_right_pos)
    then have "(of_int mb :: real) < of_int (2 ^ 53)" by simp
    then have "mb < 2 ^ 53" by (simp only: of_int_less_iff)
    then have "mb \<le> 2 ^ 53 - 1" by simp
    then have "(of_int mb :: real) \<le> of_int (2 ^ 53 - 1)" by (simp only: of_int_le_iff)
    then have "of_int mb * ulp b \<le> of_int (2 ^ 53 - 1) * ulp b"
      using ulp_pos[of b] by (simp only: mult_le_cancel_right_pos)
    with mb have "b \<le> (2 ^ 53 - 1) * ulp b" by simp
    also have "\<dots> = ulp b * 2 ^ 53 * (1 - 1 / 2 ^ 53)" by (simp add: algebra_simps)
    also have "\<dots> \<le> a * (1 - 1 / 2 ^ 53)" using False by (intro mult_right_mono) simp_all
    finally show ?thesis .
  qed
  then show ?thesis using pa by (simp add: pos_divide_le_eq mult.commute)
qed


lemma round64_above_1:
  assumes "1 + 1 / 2 ^ 53 < t"
  shows "round64 t = PInf \<or> (\<exists>r. round64 t = Fin r \<and> 1 + 1 / 2 ^ 52 \<le> r)"
proof -
  from assms have pos: "1 < t" by simp
  with round64_cases[of t] consider "round64 t = PInf" | r where "round64 t = Fin r"
    by auto
  then show ?thesis
  proof cases
    case 1
    then show ?thesis by simp
  next
    case 2
    have "1 + 1 / 2 ^ 52 \<le> r"
    proof (cases "t < 2")
      case True
      have "ulp t = 2 powr of_int (0 - 52)"
        using pos True by (intro ulp_eq) simp_all
      also have "\<dots> = 1 / 2 ^ 52" by (simp add: powr_minus_divide)
      finally have u: "ulp t = 1 / 2 ^ 52" .
      from assms have "2 ^ 52 + 1 / 2 < t * 2 ^ 52" by simp
      then have "of_int (2 ^ 52) + 1 / 2 < t / ulp t" by (simp add: u)
      then have "2 ^ 52 + 1 \<le> round_even (t / ulp t)" by (rule round_even_gt_half)
      then have "(of_int (2 ^ 52 + 1) :: real) \<le> of_int (round_even (t / ulp t))"
        by (simp only: of_int_le_iff)
      then have "of_int (2 ^ 52 + 1) * ulp t \<le> of_int (round_even (t / ulp t)) * ulp t"
        using ulp_pos[of t] by (simp only: mult_le_cancel_right_pos)
      with round64_Fin_D(1)[OF 2] show ?thesis by (simp add: u)
    next
      case False
      with two_min_normal_le_1 min_normal_pos have "min_normal \<le> \<bar>t\<bar>" by simp
      from round64_rel[OF this 2] False have e: "\<bar>r - t\<bar> \<le> t / 2 ^ 53" by simp
      have "t / 2 ^ 53 \<le> t / 2 ^ 2" using False
        by (intro divide_left_mono power_increasing) simp_all
      then have c: "t / 2 ^ 53 \<le> t / 4" by simp
      have "(1 :: real) / 2 ^ 52 \<le> 1 / 2" by simp
      with e c False show ?thesis by linarith
    qed
    with 2 show ?thesis by simp
  qed
qed

lemma round64_below_1:
  assumes "0 \<le> t" and "t \<le> 1 - 1 / 2 ^ 53"
  shows "\<exists>r. round64 t = Fin r \<and> 0 \<le> r \<and> r \<le> 1 - 1 / 2 ^ 53"
proof (cases "t = 0")
  case True
  then show ?thesis by (simp add: round64_0)
next
  case False
  with assms(1) have pos: "0 < t" by simp
  from assms(2) have lt: "t < 1" by simp
  with pos overflow_threshold_ge_32 have "\<bar>t\<bar> \<le> overflow_threshold / 2" by simp
  from round64_no_overflow[OF this] obtain r where r: "round64 t = Fin r" by blast
  from round64_nonneg[OF assms(1) r] have r0: "0 \<le> r" .
  have "log 2 \<bar>t\<bar> < 0" using pos lt by simp
  then have "\<lfloor>log 2 \<bar>t\<bar>\<rfloor> \<le> - 1" by linarith
  then have ue: "ulp_exponent t \<le> - 53" by (simp add: ulp_exponent_def)
  define k where "k = nat (- 53 - ulp_exponent t)"
  have "(- 53 :: real) = of_int (ulp_exponent t) + real k" using ue by (simp add: k_def)
  then have "(2 :: real) powr (- 53) = 2 powr (of_int (ulp_exponent t) + real k)" by simp
  also have "\<dots> = ulp t * 2 ^ k" by (simp add: powr_add powr_realpow ulp_def)
  finally have "ulp t * 2 ^ k = 2 powr (- 53)" by simp
  also have "\<dots> = 1 / 2 ^ 53" by (simp add: powr_minus_divide)
  finally have g: "ulp t * 2 ^ k = 1 / 2 ^ 53" .
  have "of_int ((2 ^ 53 - 1) * 2 ^ k) * ulp t = (2 ^ 53 - 1) * (ulp t * 2 ^ k)" by simp
  also have "\<dots> = 1 - 1 / 2 ^ 53" by (simp only: g) simp
  finally have top: "of_int ((2 ^ 53 - 1) * 2 ^ k) * ulp t = 1 - 1 / 2 ^ 53" .
  from assms(2) have "t \<le> of_int ((2 ^ 53 - 1) * 2 ^ k) * ulp t" by (simp only: top)
  then have "t / ulp t \<le> of_int ((2 ^ 53 - 1) * 2 ^ k)"
    using ulp_pos[of t] by (simp add: pos_divide_le_eq)
  then have "round_even (t / ulp t) \<le> (2 ^ 53 - 1) * 2 ^ k" by (rule round_even_le)
  then have "(of_int (round_even (t / ulp t)) :: real) \<le> of_int ((2 ^ 53 - 1) * 2 ^ k)"
    by (simp only: of_int_le_iff)
  then have "of_int (round_even (t / ulp t)) * ulp t \<le> of_int ((2 ^ 53 - 1) * 2 ^ k) * ulp t"
    using ulp_pos[of t] by (simp only: mult_le_cancel_right_pos)
  then have le: "of_int (round_even (t / ulp t)) * ulp t \<le> 1 - 1 / 2 ^ 53" by (simp only: top)
  have "r \<le> 1 - 1 / 2 ^ 53" unfolding round64_Fin_D(1)[OF r] by (rule le)
  with r r0 show ?thesis by simp
qed

subsection \<open>The logarithm next to 1\<close>

lemma half_error_above:
  fixes g L c :: real
  assumes "c \<le> L" and "0 \<le> c" and "\<bar>g - L\<bar> \<le> \<bar>L\<bar> / 2"
  shows "c / 2 \<le> g"
  using assms by linarith

lemma half_error_below:
  fixes g L c :: real
  assumes "L \<le> - c" and "0 \<le> c" and "\<bar>g - L\<bar> \<le> \<bar>L\<bar> / 2"
  shows "g \<le> - (c / 2)"
  using assms by linarith

lemma half_above:
  fixes g a c :: real
  assumes "a / 2 \<le> g" and "c \<le> a"
  shows "c / 2 \<le> g"
  using assms by linarith

lemma half_below:
  fixes g a c :: real
  assumes "\<bar>g - a\<bar> \<le> - a / 2" and "a \<le> - c"
  shows "g \<le> - (c / 2)"
  using assms by linarith

lemma log_above_1:
  assumes "\<forall>a. 0 < a \<longrightarrow> \<bar>lg a - ln a\<bar> \<le> \<bar>ln a\<bar> / 2" and "1 + 1 / 2 ^ 52 \<le> (q :: real)"
  shows "1 / 2 ^ 54 \<le> lg q" and "81 \<le> q \<Longrightarrow> 2 \<le> lg q"
proof -
  have "(0 :: real) < 1 + 1 / 2 ^ 52" by simp
  with assms(2) have pos: "0 < q" by linarith
  have "(1 / 2 ^ 52 :: real) - (1 / 2 ^ 52)\<^sup>2 \<le> ln (1 + 1 / 2 ^ 52)"
    by (rule ln_one_plus_pos_lower_bound) simp_all
  moreover have "ln (1 + 1 / 2 ^ 52) \<le> ln q" using assms(2) by simp
  moreover have "(1 / 2 ^ 53 :: real) \<le> 1 / 2 ^ 52 - (1 / 2 ^ 52)\<^sup>2"
    by (simp add: power2_eq_square)
  ultimately have low: "1 / 2 ^ 53 \<le> ln q" by linarith
  from assms(1) pos have e: "\<bar>lg q - ln q\<bar> \<le> \<bar>ln q\<bar> / 2" by simp
  from half_error_above[OF low _ e] show "1 / 2 ^ 54 \<le> lg q" by simp
  assume big: "81 \<le> q"
  have "exp (4 :: real) = exp (of_nat 4 * 1)" by simp
  also have "\<dots> = exp 1 ^ 4" by (rule exp_of_nat_mult)
  also have "\<dots> \<le> (3 :: real) ^ 4" using exp_le by (intro power_mono) simp_all
  finally have "exp (4 :: real) \<le> q" using big by simp
  then have "4 \<le> ln q" using pos by (simp add: ln_ge_iff)
  from half_error_above[OF this _ e] show "2 \<le> lg q" by simp
qed

lemma log_below_1:
  assumes "\<forall>a. 0 < a \<longrightarrow> \<bar>lg a - ln a\<bar> \<le> \<bar>ln a\<bar> / 2" and "0 < (q :: real)" and "q \<le> 1 - 1 / 2 ^ 53"
  shows "lg q \<le> - (1 / 2 ^ 54)"
proof -
  from ln_le_minus_one[OF assms(2)] assms(3) have low: "ln q \<le> - (1 / 2 ^ 53)" by linarith
  from assms(1,2) have "\<bar>lg q - ln q\<bar> \<le> \<bar>ln q\<bar> / 2" by simp
  from half_error_below[OF low _ this] show ?thesis by simp
qed


subsection \<open>The spring force\<close>

lemma length_f64_double:
  assumes "length_f64 v = Fin l"
  shows "round64 l = Fin l" and "0 \<le> l"
proof -
  from length_f64_Fin_D[OF assms] obtain S where l: "round64 (sqrt S) = Fin l" and "0 \<le> S"
    by blast
  from l show "round64 l = Fin l" by (rule round64_idem)
  have "0 \<le> sqrt S" using \<open>0 \<le> S\<close> by simp
  from round64_nonneg[OF this l] show "0 \<le> l" .
qed

lemma min_normal_le_small: "min_normal \<le> 1 / 2 ^ 55"
proof -
  have "(2 :: real) powr (- 1022) \<le> 2 powr (- 55)" by (rule powr_mono) simp_all
  also have "(2 :: real) powr (- 55) = 1 / 2 ^ 55" by (simp add: powr_minus_divide)
  finally show ?thesis by (simp only: min_normal_def)
qed

lemma min_subnormal_le_scaled_sqrt: "min_subnormal \<le> sqrt min_subnormal / 2 ^ 64"
proof -
  have "(2 :: real) powr (- 1074) \<le> 2 powr (- 601)" by (rule powr_mono) simp_all
  also have "(2 :: real) powr (- 601) = 2 powr (- 537 + - 64)" by simp
  also have "\<dots> = 2 powr (- 537) * 2 powr (- 64)" by (simp only: powr_add)
  also have "(2 :: real) powr (- 64) = 1 / 2 ^ 64" by (simp add: powr_minus_divide)
  finally have "(2 :: real) powr (- 1074) \<le> 2 powr (- 537) * (1 / 2 ^ 64)" .
  then have "min_subnormal \<le> sqrt min_subnormal * (1 / 2 ^ 64)"
    by (simp only: min_subnormal_def[symmetric] sqrt_min_subnormal)
  then show ?thesis by simp
qed

lemma springMagnitude_f64_Fin:
  assumes "length_f64 w = Fin l" and "d \<noteq> 0"
  shows "springMagnitude_f64 lg w (Fin d) = fmul (Fin d) (Math_log_f64 lg (round64 (l / d)))"
  using assms by (simp add: springMagnitude_f64_def fdiv_def)

lemma fmul_Fin_PInf: "0 < d \<Longrightarrow> fmul (Fin d) PInf = PInf"
  by (simp add: fmul_def signed_inf_def)

lemma fmul_Fin_NInf: "0 < d \<Longrightarrow> fmul (Fin d) NInf = NInf"
  by (simp add: fmul_def signed_inf_def)

lemma fmul_Fin_Fin: "fmul (Fin a) (Fin b) = round64 (a * b)"
  by (simp add: fmul_def)

lemma is_positive_round64:
  assumes "min_subnormal \<le> a"
  shows "is_positive (round64 a)"
  using round64_pos[OF assms] by auto

lemma is_negative_round64:
  assumes "a \<le> - min_subnormal"
  shows "is_negative (round64 a)"
  using round64_neg[OF assms] by auto

lemma spring_zero:
  assumes "0 < d" and "length_f64 w = Fin d"
  shows "springMagnitude_f64 lg w (Fin d) = Fin 0"
proof -
  from assms(1) have "d \<noteq> 0" by simp
  from springMagnitude_f64_Fin[OF assms(2) this] assms(1) show ?thesis
    by (simp add: round64_1 fmul_Fin_Fin round64_0)
qed

lemma spring_positive_product:
  assumes "0 < d" and "round64 d = Fin d"
    and "\<forall>a. 0 < a \<longrightarrow> \<bar>lg a - ln a\<bar> \<le> \<bar>ln a\<bar> / 2"
    and "length_f64 w = Fin l" and "d < l"
  shows "springMagnitude_f64 lg w (Fin d) = PInf
         \<or> (\<exists>g. springMagnitude_f64 lg w (Fin d) = round64 (d * g) \<and> 1 / 2 ^ 55 \<le> g
               \<and> min_subnormal \<le> d * g)"
proof -
  from assms(1) have dz: "d \<noteq> 0" by simp
  note m = springMagnitude_f64_Fin[OF assms(4) dz, of lg]
  from length_f64_double(1)[OF assms(4)] have rl: "round64 l = Fin l" .
  from double_ratio_gt[OF rl assms(2,1,5)] have ratio: "1 + 1 / 2 ^ 53 < l / d" .
  from round64_above_1[OF ratio] consider "round64 (l / d) = PInf"
    | q where "round64 (l / d) = Fin q" and "1 + 1 / 2 ^ 52 \<le> q"
    by blast
  then show ?thesis
  proof cases
    case 1
    with m assms(1) show ?thesis by (simp add: fmul_Fin_PInf)
  next
    case 2
    have "(0 :: real) < 1 / 2 ^ 52" by simp
    with 2(2) have q1: "1 < q" by linarith
    then have lq: "Math_log_f64 lg (Fin q) = round64 (lg q)" by simp
    from log_above_1(1)[OF assms(3) 2(2)] have low: "1 / 2 ^ 54 \<le> lg q" .
    have "(1 :: real) / 2 ^ 55 \<le> 1 / 2 ^ 54" by simp
    with low min_normal_le_small have mn: "min_normal \<le> lg q" by linarith
    with min_normal_pos have "0 < lg q" by linarith
    with round64_cases[of "lg q"] consider "round64 (lg q) = PInf"
      | g where "round64 (lg q) = Fin g"
      by auto
    then show ?thesis
    proof cases
      case 1
      with m 2(1) lq assms(1) show ?thesis by (simp add: fmul_Fin_PInf)
    next
      case g: 2
      from round64_half(1)[OF mn g] have gl: "lg q / 2 \<le> g" .
      from half_above[OF gl low] have g55: "1 / 2 ^ 55 \<le> g" by simp
      have "min_subnormal \<le> d * g"
      proof (cases "81 \<le> q")
        case True
        from log_above_1(2)[OF assms(3) 2(2) True] gl have "1 \<le> g" by linarith
        with assms(1) have "d * 1 \<le> d * g" by (intro mult_left_mono) simp_all
        moreover from round64_grid_min[OF assms(2) dz] assms(1) have "min_subnormal \<le> d" by simp
        ultimately show ?thesis by simp
      next
        case False
        have "(0 :: real) < 1 / 2 ^ 53" by simp
        with ratio have "1 < l / d" by linarith
        with two_min_normal_le_1 min_normal_pos have "min_normal \<le> l / d" by linarith
        from round64_half(1)[OF this 2(1)] have "l / d \<le> 2 * q" by simp
        with False have "l / d < 162" by linarith
        with assms(1) have ld: "l < 162 * d" by (simp add: pos_divide_less_eq)
        from assms(1,5) have "l \<noteq> 0" by simp
        from length_f64_lower[OF assms(4) this] ld have "sqrt min_subnormal / 324 \<le> d" by linarith
        then have "sqrt min_subnormal / 324 * (1 / 2 ^ 55) \<le> d * g"
          using g55 less_imp_le[OF assms(1)] by (rule mult_mono) simp
        moreover have "sqrt min_subnormal / 2 ^ 64 \<le> sqrt min_subnormal / 324 * (1 / 2 ^ 55)"
          using less_imp_le[OF min_subnormal_pos] by simp
        ultimately show ?thesis using min_subnormal_le_scaled_sqrt by linarith
      qed
      moreover from m 2(1) lq g have "springMagnitude_f64 lg w (Fin d) = round64 (d * g)"
        by (simp add: fmul_Fin_Fin)
      ultimately show ?thesis using g55 by blast
    qed
  qed
qed

lemma spring_positive:
  assumes "0 < d" and "round64 d = Fin d"
    and "\<forall>a. 0 < a \<longrightarrow> \<bar>lg a - ln a\<bar> \<le> \<bar>ln a\<bar> / 2"
    and "length_f64 w = Fin l" and "d < l"
  shows "is_positive (springMagnitude_f64 lg w (Fin d))"
  using spring_positive_product[OF assms] is_positive_round64 by auto

lemma spring_negative:
  assumes "0 < d" and "round64 d = Fin d"
    and "\<forall>a. 0 < a \<longrightarrow> \<bar>lg a - ln a\<bar> \<le> \<bar>ln a\<bar> / 2"
    and "length_f64 w = Fin l" and "l < d"
  shows "is_negative (springMagnitude_f64 lg w (Fin d))"
proof -
  from assms(1) have dz: "d \<noteq> 0" by simp
  note m = springMagnitude_f64_Fin[OF assms(4) dz, of lg]
  from length_f64_double[OF assms(4)] have rl: "round64 l = Fin l" and l0: "0 \<le> l" .
  have "\<exists>q. round64 (l / d) = Fin q \<and> 0 \<le> q \<and> q \<le> 1 - 1 / 2 ^ 53"
  proof (cases "l = 0")
    case True
    then show ?thesis by (simp add: round64_0)
  next
    case False
    with l0 have "0 < l" by simp
    from double_ratio_le[OF assms(2) rl this assms(5)] have "l / d \<le> 1 - 1 / 2 ^ 53" .
    moreover from l0 assms(1) have "0 \<le> l / d" by simp
    ultimately show ?thesis by (intro round64_below_1)
  qed
  then obtain q where q: "round64 (l / d) = Fin q" and q0: "0 \<le> q" and q1: "q \<le> 1 - 1 / 2 ^ 53"
    by blast
  show ?thesis
  proof (cases "q = 0")
    case True
    with m q assms(1) show ?thesis by (simp add: fmul_Fin_NInf)
  next
    case False
    with q0 have qp: "0 < q" by simp
    have "(0 :: real) < 1 / 2 ^ 53" by simp
    with q1 have "q < 1" by linarith
    with qp have lq: "Math_log_f64 lg (Fin q) = round64 (lg q)" by simp
    from log_below_1[OF assms(3) qp q1] have up: "lg q \<le> - (1 / 2 ^ 54)" .
    then have neg: "lg q < 0" by (simp add: less_le_trans[OF _ order_refl] order_le_less_trans)
    with round64_cases[of "lg q"] consider "round64 (lg q) = NInf"
      | g where "round64 (lg q) = Fin g"
      by auto
    then show ?thesis
    proof cases
      case 1
      with m q lq assms(1) show ?thesis by (simp add: fmul_Fin_NInf)
    next
      case g: 2
      have "(1 :: real) / 2 ^ 55 \<le> 1 / 2 ^ 54" by simp
      with up min_normal_le_small neg have "min_normal \<le> \<bar>lg q\<bar>" by linarith
      from round64_rel[OF this g] neg have e: "\<bar>g - lg q\<bar> \<le> - lg q / 2 ^ 53" by simp
      have "- lg q / 2 ^ 53 \<le> - lg q / 2 ^ 1" using neg
        by (intro divide_left_mono power_increasing) simp_all
      then have "- lg q / 2 ^ 53 \<le> - lg q / 2" by simp
      with e have "\<bar>g - lg q\<bar> \<le> - lg q / 2" by (rule order_trans)
      from half_below[OF this up] have g55: "g \<le> - (1 / 2 ^ 55)" by simp
      from assms(1,5) l0 have "l \<noteq> 0 \<Longrightarrow> sqrt min_subnormal / 2 \<le> d"
        using length_f64_lower[OF assms(4)] by linarith
      moreover have "l \<noteq> 0"
      proof
        assume "l = 0"
        with q have "q = 0" by (simp add: round64_0)
        with False show False by simp
      qed
      ultimately have dl: "sqrt min_subnormal / 2 \<le> d" by simp
      from g55 have "1 / 2 ^ 55 \<le> - g" by simp
      with dl have "sqrt min_subnormal / 2 * (1 / 2 ^ 55) \<le> d * (- g)"
        using less_imp_le[OF assms(1)] by (rule mult_mono) simp
      moreover have "sqrt min_subnormal / 2 ^ 64 \<le> sqrt min_subnormal / 2 * (1 / 2 ^ 55)"
        using less_imp_le[OF min_subnormal_pos] by simp
      ultimately have "d * g \<le> - min_subnormal" using min_subnormal_le_scaled_sqrt by simp
      then have "is_negative (round64 (d * g))" by (rule is_negative_round64)
      with m q lq g show ?thesis by (simp add: fmul_Fin_Fin)
    qed
  qed
qed


lemma sub_f64_Fin:
  "sub_f64 \<lparr>x = Fin vx, y = Fin vy\<rparr> \<lparr>x = Fin ux, y = Fin uy\<rparr>
     = \<lparr>x = round64 (vx - ux), y = round64 (vy - uy)\<rparr>"
  by (simp add: sub_f64_def fsub_def minus_number_def)

lemma scalarMult_f64_zero:
  "scalarMult_f64 (Fin 0) \<lparr>x = Fin a, y = Fin b\<rparr> = \<lparr>x = Fin 0, y = Fin 0\<rparr>"
  by (simp add: scalarMult_f64_def fmul_Fin_Fin round64_0)

lemma calculateSpringForce_f64_unfold:
  "calculateSpringForce_f64 lg u v d
     = scalarMult_f64 (springMagnitude_f64 lg (sub_f64 v u) d) (norm_f64 (sub_f64 v u))"
  by (simp add: calculateSpringForce_f64_def Let_def)

text \<open>
  C8, on the double-precision arithmetic of the code. Let \<open>u\<close> and \<open>v\<close> have real components,
  let \<open>d\<close> be a positive double, and let \<open>l\<close> be the real that \<open>length(sub(v, u))\<close> computes
  (the square root of the sum of the squares of the rounded differences, each operation
  rounded). \<open>Math.log\<close> is whatever approximation \<open>lg\<close> the platform has, rounded, provided it
  is within half of the magnitude of the natural logarithm.

  \<^item> If \<open>l = d\<close>, \<open>calculateSpringForce(u, v, d)\<close> is the zero vector.
  \<^item> The magnitude \<open>d * Math.log(l / d)\<close> is a positive real or \<open>Infinity\<close> exactly when
    \<open>d < l\<close>.
  \<^item> It is a negative real or \<open>-Infinity\<close> exactly when \<open>l < d\<close>; it is \<open>-Infinity\<close> when
    \<open>l\<close>, or the quotient \<open>l / d\<close>, is 0.
  \<^item> The force is this magnitude times \<open>norm\<close> of the rounded difference, which points from
    \<open>u\<close> to \<open>v\<close>.
\<close>

theorem calculateSpringForce_f64_sign:
  assumes "0 < d" and "round64 d = Fin d"
    and "\<forall>a. 0 < a \<longrightarrow> \<bar>lg a - ln a\<bar> \<le> \<bar>ln a\<bar> / 2"
    and "round64 (vx - ux) = Fin p" and "round64 (vy - uy) = Fin q"
    and "length_f64 \<lparr>x = Fin p, y = Fin q\<rparr> = Fin l"
  shows "(l = d \<longrightarrow>
            calculateSpringForce_f64 lg \<lparr>x = Fin ux, y = Fin uy\<rparr> \<lparr>x = Fin vx, y = Fin vy\<rparr> (Fin d)
              = \<lparr>x = Fin 0, y = Fin 0\<rparr>)
       \<and> (is_positive (springMagnitude_f64 lg
              (sub_f64 \<lparr>x = Fin vx, y = Fin vy\<rparr> \<lparr>x = Fin ux, y = Fin uy\<rparr>) (Fin d)) \<longleftrightarrow> d < l)
       \<and> (is_negative (springMagnitude_f64 lg
              (sub_f64 \<lparr>x = Fin vx, y = Fin vy\<rparr> \<lparr>x = Fin ux, y = Fin uy\<rparr>) (Fin d)) \<longleftrightarrow> l < d)
       \<and> calculateSpringForce_f64 lg \<lparr>x = Fin ux, y = Fin uy\<rparr> \<lparr>x = Fin vx, y = Fin vy\<rparr> (Fin d)
            = scalarMult_f64 (fmul (Fin d) (Math_log_f64 lg (fdiv (Fin l) (Fin d))))
                (norm_f64 \<lparr>x = Fin p, y = Fin q\<rparr>)"
proof -
  let ?u = "\<lparr>x = Fin ux, y = Fin uy\<rparr>" and ?v = "\<lparr>x = Fin vx, y = Fin vy\<rparr>"
  let ?w = "\<lparr>x = Fin p, y = Fin q\<rparr>"
  let ?m = "springMagnitude_f64 lg ?w (Fin d)"
  have w: "sub_f64 ?v ?u = ?w" by (simp only: sub_f64_Fin assms(4,5))
  have force: "calculateSpringForce_f64 lg ?u ?v (Fin d) = scalarMult_f64 ?m (norm_f64 ?w)"
    by (simp only: calculateSpringForce_f64_unfold w)
  have zero: "calculateSpringForce_f64 lg ?u ?v (Fin d) = \<lparr>x = Fin 0, y = Fin 0\<rparr>" if "l = d"
  proof -
    from that assms(6) have len: "length_f64 ?w = Fin d" by simp
    from assms(1) have "d \<noteq> 0" by simp
    from norm_f64_Fin[OF len this] obtain a b where "norm_f64 ?w = \<lparr>x = Fin a, y = Fin b\<rparr>"
      by blast
    with force spring_zero[OF assms(1) len, of lg] show ?thesis
      by (simp only: scalarMult_f64_zero)
  qed
  have pos: "is_positive ?m" if "d < l"
    using spring_positive[OF assms(1,2,3,6) that] .
  have neg: "is_negative ?m" if "l < d"
    using spring_negative[OF assms(1,2,3,6) that] .
  have mid: "?m = Fin 0" if "l = d"
    using spring_zero[OF assms(1)] assms(6) that by simp
  have p_iff: "is_positive ?m \<longleftrightarrow> d < l"
  proof
    assume a: "is_positive ?m"
    show "d < l"
    proof (rule ccontr)
      assume "\<not> d < l"
      then consider "l = d" | "l < d" by linarith
      then show False
      proof cases
        case 1
        from mid[OF 1] a show False by simp
      next
        case 2
        from neg[OF 2] a show False by (cases ?m) simp_all
      qed
    qed
  qed (rule pos)
  have n_iff: "is_negative ?m \<longleftrightarrow> l < d"
  proof
    assume a: "is_negative ?m"
    show "l < d"
    proof (rule ccontr)
      assume "\<not> l < d"
      then consider "l = d" | "d < l" by linarith
      then show False
      proof cases
        case 1
        from mid[OF 1] a show False by simp
      next
        case 2
        from pos[OF 2] a show False by (cases ?m) simp_all
      qed
    qed
  qed (rule neg)
  have "?m = fmul (Fin d) (Math_log_f64 lg (fdiv (Fin l) (Fin d)))"
    by (simp only: springMagnitude_f64_def assms(6))
  with force have dir: "calculateSpringForce_f64 lg ?u ?v (Fin d)
      = scalarMult_f64 (fmul (Fin d) (Math_log_f64 lg (fdiv (Fin l) (Fin d)))) (norm_f64 ?w)"
    by simp
  from zero p_iff n_iff dir show ?thesis unfolding w by blast
qed


text \<open>
  C8, at \<open>u = (1, 0)\<close> and \<open>v = (4, 0)\<close>, with the natural logarithm itself for \<open>Math.log\<close>:
  the computed length of \<open>v - u\<close> is 3, the force is the zero vector at the optimum distance
  3, its magnitude is positive at the optimum distance 2 and negative at the optimum
  distance 4.
\<close>

theorem calculateSpringForce_f64_sign_witness:
  "length_f64 (sub_f64 \<lparr>x = Fin 4, y = Fin 0\<rparr> \<lparr>x = Fin 1, y = Fin 0\<rparr>) = Fin 3
   \<and> calculateSpringForce_f64 ln \<lparr>x = Fin 1, y = Fin 0\<rparr> \<lparr>x = Fin 4, y = Fin 0\<rparr> (Fin 3)
       = \<lparr>x = Fin 0, y = Fin 0\<rparr>
   \<and> is_positive (springMagnitude_f64 ln
         (sub_f64 \<lparr>x = Fin 4, y = Fin 0\<rparr> \<lparr>x = Fin 1, y = Fin 0\<rparr>) (Fin 2))
   \<and> is_negative (springMagnitude_f64 ln
         (sub_f64 \<lparr>x = Fin 4, y = Fin 0\<rparr> \<lparr>x = Fin 1, y = Fin 0\<rparr>) (Fin 4))"
proof -
  have lg: "\<forall>a :: real. 0 < a \<longrightarrow> \<bar>ln a - ln a\<bar> \<le> \<bar>ln a\<bar> / 2" by simp
  have p: "round64 (4 - 1) = Fin 3" by (simp add: round64_numeral)
  have q: "round64 (0 - 0) = Fin 0" by (simp add: round64_0)
  have w: "sub_f64 \<lparr>x = Fin 4, y = Fin 0\<rparr> \<lparr>x = Fin 1, y = Fin 0\<rparr> = \<lparr>x = Fin 3, y = Fin 0\<rparr>"
    by (simp only: sub_f64_Fin p q)
  have d2: "round64 2 = Fin 2" and d3: "round64 3 = Fin 3" and d4: "round64 4 = Fin 4"
    by (simp_all add: round64_numeral)
  have "length_f64 (sub_f64 \<lparr>x = Fin 4, y = Fin 0\<rparr> \<lparr>x = Fin 1, y = Fin 0\<rparr>) = Fin 3"
    by (simp only: w length_f64_3_0)
  moreover from calculateSpringForce_f64_sign [OF _ d3 lg p q length_f64_3_0]
  have "calculateSpringForce_f64 ln \<lparr>x = Fin 1, y = Fin 0\<rparr> \<lparr>x = Fin 4, y = Fin 0\<rparr> (Fin 3)
       = \<lparr>x = Fin 0, y = Fin 0\<rparr>"
    by simp
  moreover from calculateSpringForce_f64_sign [OF _ d2 lg p q length_f64_3_0]
  have "is_positive (springMagnitude_f64 ln
         (sub_f64 \<lparr>x = Fin 4, y = Fin 0\<rparr> \<lparr>x = Fin 1, y = Fin 0\<rparr>) (Fin 2))"
    by simp
  moreover from calculateSpringForce_f64_sign [OF _ d4 lg p q length_f64_3_0]
  have "is_negative (springMagnitude_f64 ln
         (sub_f64 \<lparr>x = Fin 4, y = Fin 0\<rparr> \<lparr>x = Fin 1, y = Fin 0\<rparr>) (Fin 4))"
    by simp
  ultimately show ?thesis by simp
qed

lemma min_subnormal_le_min_normal: "min_subnormal \<le> min_normal"
  unfolding min_subnormal_def min_normal_def by (rule powr_mono) simp_all

lemma round64_example_x: "round64 22945043776824083272572076041 = Fin 22945043776824084810908565504"
proof -
  let ?a = "22945043776824083272572076041 :: real"
  have u: "ulp ?a = 2 powr of_int (94 - 52)"
    by (rule ulp_eq) simp_all
  have v: "(2 :: real) powr of_int (94 - 52) = 4398046511104" by simp
  have "round64 ?a = Fin (of_int 5217098936742351 * 4398046511104)"
  proof (rule round64_eval)
    show "ulp ?a = 4398046511104" using u v by simp
    show "\<bar>of_int 5217098936742351 - ?a / 4398046511104\<bar> < 1 / 2" by simp
    have "(2 :: real) ^ 100 \<le> overflow_threshold" by (rule overflow_threshold_ge) simp
    then show "\<bar>of_int 5217098936742351 * 4398046511104\<bar> < overflow_threshold" by simp
  qed
  then show ?thesis by simp
qed

lemma round64_example_y: "round64 40791188936576148040128135184 = Fin 40791188936576150774948560896"
proof -
  let ?a = "40791188936576148040128135184 :: real"
  have u: "ulp ?a = 2 powr of_int (95 - 52)"
    by (rule ulp_eq) simp_all
  have v: "(2 :: real) powr of_int (95 - 52) = 8796093022208" by simp
  have "round64 ?a = Fin (of_int 4637421277104312 * 8796093022208)"
  proof (rule round64_eval)
    show "ulp ?a = 8796093022208" using u v by simp
    show "\<bar>of_int 4637421277104312 - ?a / 8796093022208\<bar> < 1 / 2" by simp
    have "(2 :: real) ^ 100 \<le> overflow_threshold" by (rule overflow_threshold_ge) simp
    then show "\<bar>of_int 4637421277104312 * 8796093022208\<bar> < overflow_threshold" by simp
  qed
  then show ?thesis by simp
qed

lemma round64_example_sum: "round64 63736232713400235585857126400 = Fin 63736232713400239983903637504"
proof -
  let ?a = "63736232713400235585857126400 :: real"
  have u: "ulp ?a = 2 powr of_int (95 - 52)"
    by (rule ulp_eq) simp_all
  have v: "(2 :: real) powr of_int (95 - 52) = 8796093022208" by simp
  have "round64 ?a = Fin (of_int (7245970745475487 + 1) * 8796093022208)"
  proof (rule round64_eval_tie)
    show "ulp ?a = 8796093022208" using u v by simp
    show "?a / 8796093022208 = of_int 7245970745475487 + 1 / 2" by simp
    show "odd (7245970745475487 :: int)" by simp
    have "(2 :: real) ^ 100 \<le> overflow_threshold" by (rule overflow_threshold_ge) simp
    then show "\<bar>of_int (7245970745475487 + 1) * 8796093022208\<bar> < overflow_threshold" by simp
  qed
  then show ?thesis by simp
qed

lemma between_halves:
  fixes s n :: real
  assumes "(2 * n - 1) / 64 < s" and "s < (2 * n + 1) / 64"
  shows "\<bar>n - s * 32\<bar> < 1 / 2"
proof -
  from assms have "2 * n - 1 < s * 64" and "s * 64 < 2 * n + 1" by (simp_all add: field_simps)
  then show ?thesis by linarith
qed

lemma round64_example_sqrt:
  "round64 (sqrt 63736232713400239983903637504) = Fin (8078731478302881 / 32)"
proof -
  let ?s = "sqrt 63736232713400239983903637504"
  have lo: "16157462956605761 / 64 < ?s"
    by (rule real_less_rsqrt) (simp add: power2_eq_square)
  have hi: "?s < 16157462956605763 / 64"
    by (rule real_less_lsqrt) (simp_all add: power2_eq_square)
  have u: "ulp ?s = 2 powr of_int (47 - 52)"
  proof (rule ulp_eq)
    have "(2 :: real) powr of_int 47 = 140737488355328" by simp
    with lo show "2 powr of_int 47 \<le> \<bar>?s\<bar>" by linarith
    have "(2 :: real) powr (of_int 47 + 1) = 281474976710656" by simp
    with lo hi show "\<bar>?s\<bar> < 2 powr (of_int 47 + 1)" by linarith
  qed simp
  have v: "(2 :: real) powr of_int (47 - 52) = 1 / 32" by (simp add: powr_minus_divide)
  have "round64 ?s = Fin (of_int 8078731478302881 * (1 / 32))"
  proof (rule round64_eval)
    show "ulp ?s = 1 / 32" using u v by simp
    from lo hi have "(2 * 8078731478302881 - 1) / 64 < ?s" and "?s < (2 * 8078731478302881 + 1) / 64"
      by simp_all
    from between_halves[OF this] show "\<bar>of_int 8078731478302881 - ?s / (1 / 32)\<bar> < 1 / 2"
      by simp
    have "(2 :: real) ^ 100 \<le> overflow_threshold" by (rule overflow_threshold_ge) simp
    then show "\<bar>of_int 8078731478302881 * (1 / 32)\<bar> < overflow_threshold" by simp
  qed
  then show ?thesis by simp
qed

lemma length_f64_example:
  "length_f64 \<lparr>x = Fin 151476215218179, y = Fin 201968286957572\<rparr> = Fin (8078731478302881 / 32)"
  by (simp add: length_f64_def fmul_def fadd_def fsqrt_def round64_example_x round64_example_y
        round64_example_sum round64_example_sqrt)


lemma fmul_nonzero:
  assumes "m = PInf \<or> (\<exists>r. m = Fin r \<and> c \<le> r)"
    and "min_subnormal \<le> c * a" and "0 < a"
  shows "fmul m (Fin a) \<noteq> Fin 0"
proof -
  from assms(1) consider "m = PInf" | r where "m = Fin r" and "c \<le> r" by blast
  then show ?thesis
  proof cases
    case 1
    with assms(3) show ?thesis by (simp add: fmul_def signed_inf_def)
  next
    case 2
    from 2(2) assms(3) have "c * a \<le> r * a" by (simp only: mult_le_cancel_right_pos)
    with assms(2) have "min_subnormal \<le> r * a" by linarith
    from round64_pos[OF this] 2(1) show ?thesis by (auto simp: fmul_Fin_Fin)
  qed
qed

text \<open>
  C8 does not hold of the distance \<open>|v - u|\<close> itself. At \<open>u = (0, 0)\<close>,
  \<open>v = (151476215218179, 201968286957572)\<close> and \<open>d = 252460358696965\<close> (3, 4 and 5 times
  50492071739393) the distance is exactly \<open>d\<close>, but the squares and their sum are rounded,
  \<open>length(v - u)\<close> is \<open>d + 1/32\<close>, the magnitude is positive and the force is not the zero
  vector; the natural logarithm itself stands for \<open>Math.log\<close>.
\<close>

theorem calculateSpringForce_f64_at_optimum_not_zero:
  "sqrt ((151476215218179 - 0)\<^sup>2 + (201968286957572 - 0)\<^sup>2) = (252460358696965 :: real)
   \<and> length_f64 (sub_f64 \<lparr>x = Fin 151476215218179, y = Fin 201968286957572\<rparr> \<lparr>x = Fin 0, y = Fin 0\<rparr>)
       = Fin (252460358696965 + 1 / 32)
   \<and> is_positive (springMagnitude_f64 ln
         (sub_f64 \<lparr>x = Fin 151476215218179, y = Fin 201968286957572\<rparr> \<lparr>x = Fin 0, y = Fin 0\<rparr>)
         (Fin 252460358696965))
   \<and> calculateSpringForce_f64 ln \<lparr>x = Fin 0, y = Fin 0\<rparr>
         \<lparr>x = Fin 151476215218179, y = Fin 201968286957572\<rparr> (Fin 252460358696965)
       \<noteq> \<lparr>x = Fin 0, y = Fin 0\<rparr>"
proof -
  let ?u = "\<lparr>x = Fin 0, y = Fin 0\<rparr>"
  let ?v = "\<lparr>x = Fin 151476215218179, y = Fin 201968286957572\<rparr>"
  let ?d = "252460358696965 :: real"
  let ?L = "8078731478302881 / 32 :: real"
  let ?m = "springMagnitude_f64 ln ?v (Fin ?d)"
  have exact: "sqrt ((151476215218179 - 0)\<^sup>2 + (201968286957572 - 0)\<^sup>2) = ?d"
    by (rule real_sqrt_unique) simp_all
  have w: "sub_f64 ?v ?u = ?v" by (simp add: sub_f64_Fin round64_numeral)
  have len: "length_f64 ?v = Fin ?L" by (rule length_f64_example)
  have L: "?L = ?d + 1 / 32" by simp
  have rd: "round64 ?d = Fin ?d" by (simp add: round64_numeral)
  have lg: "\<forall>a :: real. 0 < a \<longrightarrow> \<bar>ln a - ln a\<bar> \<le> \<bar>ln a\<bar> / 2" by simp
  have dpos: "0 < ?d" and lt: "?d < ?L" and Lz: "?L \<noteq> 0" by simp_all
  have pos: "is_positive ?m" using dpos rd lg len lt by (rule spring_positive)
  from norm_f64_Fin[OF len Lz] obtain p q r a b where
    v: "?v = \<lparr>x = Fin p, y = Fin q\<rparr>" and r: "round64 (1 / ?L) = Fin r"
    and a: "round64 (r * p) = Fin a" and n: "norm_f64 ?v = \<lparr>x = Fin a, y = Fin b\<rparr>"
    by blast
  from v have p: "p = 151476215218179" by simp
  have small: "(1 :: real) / 2 ^ 55 \<le> 1 / ?L" by simp
  with min_normal_le_small have "min_normal \<le> 1 / ?L" by (rule order_trans)
  from round64_half(1)[OF this r] have "1 / ?L / 2 \<le> r" .
  then have "1 / ?L / 2 * p \<le> r * p" unfolding p by (simp only: mult_le_cancel_right_pos)
  moreover have "1 / 4 \<le> 1 / ?L / 2 * p" unfolding p by simp
  ultimately have rp: "1 / 4 \<le> r * p" by linarith
  have "(1 :: real) / 2 ^ 55 \<le> 1 / 4" by simp
  with min_normal_le_small rp have "min_normal \<le> r * p" by linarith
  from round64_half(1)[OF this a] rp have a8: "1 / 8 \<le> a" by linarith
  have bound: "?m = PInf \<or> (\<exists>t. ?m = Fin t \<and> 1 / 2 ^ 9 \<le> t)"
  proof -
    from spring_positive_product[OF dpos rd lg len lt] consider "?m = PInf"
      | g where "?m = round64 (?d * g)" and "1 / 2 ^ 55 \<le> g"
      by blast
    then show ?thesis
    proof cases
      case 1
      then show ?thesis by simp
    next
      case 2
      from 2(2) have "?d * (1 / 2 ^ 55) \<le> ?d * g" by (simp only: mult_le_cancel_left_pos)
      moreover have "1 / 2 ^ 8 \<le> ?d * (1 / 2 ^ 55)" by simp
      ultimately have dg: "1 / 2 ^ 8 \<le> ?d * g" by (rule order_trans[rotated])
      have "(1 :: real) / 2 ^ 55 \<le> 1 / 2 ^ 8" by simp
      with min_normal_le_small dg have mn: "min_normal \<le> ?d * g" by linarith
      with min_normal_pos have "0 < ?d * g" by linarith
      with round64_cases[of "?d * g"] consider "round64 (?d * g) = PInf"
        | t where "round64 (?d * g) = Fin t"
        by auto
      then show ?thesis
      proof cases
        case 1
        with 2(1) show ?thesis by simp
      next
        case t: 2
        from round64_half(1)[OF mn t] have "?d * g / 2 \<le> t" .
        from half_above[OF this dg] have "1 / 2 ^ 9 \<le> t" by simp
        with 2(1) t show ?thesis by simp
      qed
    qed
  qed
  have "min_subnormal \<le> 1 / 2 ^ 55"
    using min_subnormal_le_min_normal min_normal_le_small by (rule order_trans)
  moreover have "(1 :: real) / 2 ^ 55 \<le> 1 / 2 ^ 9 * (1 / 8)" by simp
  ultimately have ms: "min_subnormal \<le> 1 / 2 ^ 9 * (1 / 8)" by (rule order_trans)
  have "(1 :: real) / 2 ^ 9 * (1 / 8) \<le> 1 / 2 ^ 9 * a" using a8 by simp
  with ms have ms': "min_subnormal \<le> 1 / 2 ^ 9 * a" by (rule order_trans)
  from a8 have apos: "0 < a" by simp
  have "fmul ?m (Fin a) \<noteq> Fin 0"
    using bound ms' apos by (rule fmul_nonzero)
  then have "scalarMult_f64 ?m (norm_f64 ?v) \<noteq> \<lparr>x = Fin 0, y = Fin 0\<rparr>"
    by (simp add: n scalarMult_f64_def)
  then have force: "calculateSpringForce_f64 ln ?u ?v (Fin ?d) \<noteq> \<lparr>x = Fin 0, y = Fin 0\<rparr>"
    unfolding calculateSpringForce_f64_unfold w .
  have "length_f64 (sub_f64 ?v ?u) = Fin (?d + 1 / 32)" by (simp only: w len L)
  moreover have "is_positive (springMagnitude_f64 ln (sub_f64 ?v ?u) (Fin ?d))"
    using pos by (simp only: w)
  ultimately show ?thesis using exact force by blast
qed

section \<open>Graph model: edges and neighbours\<close>

lemma getVertices_upt: "getVertices adj = [0..<length adj]"
  unfolding getVertices_def by (simp add: enumerate_eq_zip case_prod_unfold)

text \<open>
  C3, as the claim counts: the edges of the entry point's adjacency list are not 8.
\<close>

theorem getEdges_main_not_8: "length (getEdges adjacencyList_main) \<noteq> 8"
  by (simp add: getEdges_def adjacencyList_main_def)

text \<open>
  C3, amended: \<open>getEdges\<close> of the entry point's adjacency list yields exactly 10 pairs,
  the ten that the claim lists, row by row and in the order of each row.
\<close>

theorem getEdges_main:
  "getEdges adjacencyList_main =
     [\<lparr>from_vertex = 1, to_vertex = 0\<rparr>, \<lparr>from_vertex = 1, to_vertex = 2\<rparr>,
      \<lparr>from_vertex = 2, to_vertex = 3\<rparr>, \<lparr>from_vertex = 2, to_vertex = 4\<rparr>,
      \<lparr>from_vertex = 2, to_vertex = 5\<rparr>, \<lparr>from_vertex = 3, to_vertex = 6\<rparr>,
      \<lparr>from_vertex = 6, to_vertex = 7\<rparr>, \<lparr>from_vertex = 6, to_vertex = 8\<rparr>,
      \<lparr>from_vertex = 8, to_vertex = 9\<rparr>, \<lparr>from_vertex = 8, to_vertex = 10\<rparr>]
   \<and> length (getEdges adjacencyList_main) = 10"
  by (simp add: getEdges_def adjacencyList_main_def)

lemma inbound_filter:
  "concat (map (\<lambda>(from, vertices). if List.member vertices vertex then [from] else [])
               (enumerate 0 adj))
   = filter (\<lambda>u. vertex \<in> set (adj ! u)) [0..<length adj]"
proof (induction adj rule: rev_induct)
  case Nil
  show ?case by simp
next
  case (snoc r rs)
  have same: "filter (\<lambda>u. vertex \<in> set ((rs @ [r]) ! u)) [0..<length rs]
      = filter (\<lambda>u. vertex \<in> set (rs ! u)) [0..<length rs]"
    by (rule filter_cong) (simp_all add: nth_append)
  have "enumerate 0 (rs @ [r]) = enumerate 0 rs @ [(length rs, r)]"
    by (simp add: enumerate_append_eq)
  with snoc.IH same show ?case
    by simp
qed

lemma getAdjacentVertices_eq:
  "getAdjacentVertices adj v =
     (if v < length adj then adj ! v else []) @ filter (\<lambda>u. v \<in> set (adj ! u)) [0..<length adj]"
  unfolding getAdjacentVertices_def Let_def inbound_filter ..

lemma count_list_upt: "count_list [0..<n] w = (if w < n then 1 else 0)"
  by (induction n) auto

lemma count_list_filter: "count_list (filter P xs) w = (if P w then count_list xs w else 0)"
  by (induction xs) auto

text \<open>
  C6: the neighbours of a vertex are its outbound targets, in the order of its row,
  followed by the inbound sources, in the order of the vertices. A target occurs among the
  outbound neighbours as often as the row lists it; a source occurs among the inbound
  neighbours once, however often its row lists the vertex. The neighbours of vertex 2 in
  the entry point's adjacency list are 3, 4, 5 (outbound) and 1 (inbound).
\<close>

theorem getAdjacentVertices_outbound_then_inbound:
  "getAdjacentVertices adj v =
     (if v < length adj then adj ! v else []) @ filter (\<lambda>u. v \<in> set (adj ! u)) [0..<length adj]
   \<and> count_list (getAdjacentVertices adj v) w =
       count_list (if v < length adj then adj ! v else []) w
       + (if w < length adj \<and> v \<in> set (adj ! w) then 1 else 0)
   \<and> getAdjacentVertices adjacencyList_main 2 = [3, 4, 5, 1]"
proof -
  have "getAdjacentVertices adjacencyList_main 2 = [3, 4, 5, 1]"
    by (simp add: getAdjacentVertices_def adjacencyList_main_def)
  then show ?thesis
    by (simp add: getAdjacentVertices_eq count_list_filter count_list_upt)
qed

text \<open>
  C6, at the adjacency list \<open>[[1, 1], []]\<close>, where the edge from 0 to 1 is listed twice:
  vertex 1 is twice a neighbour of vertex 0, and vertex 0 is once a neighbour of vertex 1.
\<close>

theorem getAdjacentVertices_outbound_then_inbound_witness:
  "getAdjacentVertices [[1, 1], []] 0 = [1, 1]
   \<and> getAdjacentVertices [[1, 1], []] 1 = [0]
   \<and> count_list (getAdjacentVertices [[1, 1], []] 0) 1 = 2
   \<and> count_list (getAdjacentVertices [[1, 1], []] 1) 0 = 1"
  using getAdjacentVertices_outbound_then_inbound [of "[[1, 1], []]" 0 1]
        getAdjacentVertices_outbound_then_inbound [of "[[1, 1], []]" 1 0]
  by (simp add: upt_conv_Cons)

section \<open>Layout step\<close>

lemma add_commute: "add u v = add v u"
  by (simp add: add_def add.commute)

lemma add_assoc: "add (add u v) w = add u (add v w)"
  by (simp add: add_def add.assoc)

lemma add_zero: "add \<lparr>x = Fin 0, y = Fin 0\<rparr> v = v"
  using add_0_left[where 'a = number] by (simp add: add_def zero_number_def)

lemma add_zero_right: "add v \<lparr>x = Fin 0, y = Fin 0\<rparr> = v"
  using add_zero[of v] by (simp only: add_commute)

lemma vector_sum_Nil: "vector_sum [] = \<lparr>x = Fin 0, y = Fin 0\<rparr>"
  by (simp add: vector_sum_def zero_number_def)

lemma vector_sum_Cons: "vector_sum (v # vs) = add v (vector_sum vs)"
  by (simp add: vector_sum_def add_def)

lemma reduce_add:
  assumes "\<And>acc a. a \<in> set as \<Longrightarrow> f acc a = Inr (add acc (g a))"
  shows "reduce f acc as = Inr (add acc (vector_sum (map g as)))"
  using assms
proof (induction as arbitrary: acc)
  case Nil
  show ?case by (simp add: vector_sum_Nil add_zero_right)
next
  case (Cons a as)
  have "reduce f acc (a # as) = reduce f (add acc (g a)) as"
    by (simp add: Cons.prems)
  also have "\<dots> = Inr (add (add acc (g a)) (vector_sum (map g as)))"
    by (rule Cons.IH) (simp add: Cons.prems)
  finally show ?case by (simp add: vector_sum_Cons add_assoc)
qed

lemma map_array_total:
  assumes "\<And>a. a \<in> set as \<Longrightarrow> f a = Inr (g a)"
  shows "map_array f as = Inr (map g as)"
  using assms by (induction as) simp_all

lemma wf_adjacency_row: "wf_adjacency adj \<Longrightarrow> v < length adj \<Longrightarrow> n \<in> set (adj ! v) \<Longrightarrow> n < length adj"
  unfolding wf_adjacency_def list_all_iff using nth_mem by blast

lemma getAdjacentVertices_range:
  assumes "wf_adjacency adj" and "v < length adj" and "n \<in> set (getAdjacentVertices adj v)"
  shows "n < length adj"
  using assms wf_adjacency_row by (auto simp: getAdjacentVertices_eq)

lemma index_Some: "i < length xs \<Longrightarrow> index xs i = Some (xs ! i)"
  by (simp add: index_def)

lemma localAttraction_total:
  assumes "wf_adjacency adj" and "length pos = length adj" and "v < length adj"
  shows "localAttraction adj d pos v =
     Inr (vector_sum (map (\<lambda>n. calculateSpringForce (pos ! v) (pos ! n) d) (getAdjacentVertices adj v)))"
proof -
  have "localAttraction adj d pos v = Inr (add \<lparr>x = Fin 0, y = Fin 0\<rparr>
     (vector_sum (map (\<lambda>n. calculateSpringForce (pos ! v) (pos ! n) d) (getAdjacentVertices adj v))))"
    unfolding localAttraction_def Let_def
  proof (rule reduce_add)
    fix acc a assume "a \<in> set (getAdjacentVertices adj v)"
    then have "a < length pos" using getAdjacentVertices_range assms by simp
    then show "(case (index pos v, index pos a) of
           (Some pos1, Some pos2) \<Rightarrow> Inr (add acc (calculateSpringForce pos1 pos2 d))
         | _ \<Rightarrow> Inl TypeError) = Inr (add acc (calculateSpringForce (pos ! v) (pos ! a) d))"
      using assms by (simp add: index_Some)
  qed
  then show ?thesis by (simp only: add_zero)
qed

lemma globalRepulsion_total:
  assumes "length pos = length adj" and "v < length adj"
  shows "globalRepulsion [0..<length adj] d pos v =
     Inr (vector_sum (map (\<lambda>w. calculateRepulsion (pos ! v) (pos ! w) d)
                          (filter (\<lambda>w. w \<noteq> v) [0..<length adj])))"
proof -
  have "globalRepulsion [0..<length adj] d pos v = Inr (add \<lparr>x = Fin 0, y = Fin 0\<rparr>
     (vector_sum (map (\<lambda>w. calculateRepulsion (pos ! v) (pos ! w) d)
                          (filter (\<lambda>w. w \<noteq> v) [0..<length adj]))))"
    unfolding globalRepulsion_def
  proof (rule reduce_add)
    fix acc a assume "a \<in> set (filter (\<lambda>w. w \<noteq> v) [0..<length adj])"
    then have "a < length pos" using assms by simp
    then show "(case (index pos v, index pos a) of
           (Some pos1, Some pos2) \<Rightarrow> (let repulsion = calculateRepulsion pos1 pos2 d in Inr (add acc repulsion))
         | _ \<Rightarrow> Inl TypeError) = Inr (add acc (calculateRepulsion (pos ! v) (pos ! a) d))"
      using assms by (simp add: index_Some)
  qed
  then show ?thesis by (simp only: add_zero)
qed

lemma layoutVertex_total:
  assumes "wf_adjacency adj" and "length pos = length adj" and "v < length adj"
  shows "layoutVertex adj d pos (Fin 0.4) [0..<length adj] v = Inr (newPosition adj d pos v)"
  using assms
  by (simp add: layoutVertex_def localAttraction_total globalRepulsion_total index_Some
        newPosition_def add_commute)

lemma makeLayout_total:
  assumes "wf_adjacency adj" and "length pos = length adj"
  shows "makeLayout adj d pos = Inr (map (newPosition adj d pos) [0..<length adj])"
  unfolding makeLayout_def Let_def getVertices_upt
  by (rule map_array_total) (use layoutVertex_total[OF assms] in simp)


lemma map_array_Inr:
  "map_array f as = Inr bs \<Longrightarrow> length bs = length as \<and> (\<forall>i<length as. f (as ! i) = Inr (bs ! i))"
proof (induction as arbitrary: bs)
  case Nil
  then show ?case by simp
next
  case (Cons a as)
  from Cons.prems obtain b bs' where b: "f a = Inr b" and bs': "map_array f as = Inr bs'"
    and bs: "bs = b # bs'"
    by (auto split: sum.splits)
  from Cons.IH[OF bs'] b bs show ?case
    by (auto simp: nth_Cons split: nat.splits)
qed





section \<open>Layout run\<close>

lemma initialPositions_length: "length (fst (initialPositions rnd c d vs)) = length vs"
  by (induction vs arbitrary: c) (simp_all add: Let_def case_prod_unfold)

lemma initialPositions_nth:
  "i < length vs \<Longrightarrow>
   fst (initialPositions rnd c d vs) ! i =
     \<lparr>x = (Fin (rnd (c + 2 * i)) - Fin 0.5) * Fin 2 * d,
      y = (Fin (rnd (c + 2 * i + 1)) - Fin 0.5) * Fin 2 * d\<rparr>"
proof (induction vs arbitrary: c i)
  case Nil
  then show ?case by simp
next
  case (Cons v vs)
  show ?case
  proof (cases i)
    case 0
    then show ?thesis by (simp add: Let_def case_prod_unfold)
  next
    case (Suc j)
    with Cons.prems have "j < length vs" by simp
    from Cons.IH[OF this, of "c + 2"] Suc show ?thesis
      by (simp add: Let_def case_prod_unfold)
  qed
qed

lemma initialPositions_cong:
  "(\<And>i. i < 2 * length vs \<Longrightarrow> rnd (c + i) = rnd' (c + i)) \<Longrightarrow>
   initialPositions rnd c d vs = initialPositions rnd' c d vs"
proof (induction vs arbitrary: c)
  case Nil
  show ?case by simp
next
  case (Cons v vs)
  have a: "rnd c = rnd' c" using Cons.prems[of 0] by simp
  have b: "rnd (c + 1) = rnd' (c + 1)" using Cons.prems[of 1] by simp
  have "initialPositions rnd (c + 2) d vs = initialPositions rnd' (c + 2) d vs"
  proof (rule Cons.IH)
    fix i assume "i < 2 * length vs"
    then show "rnd (c + 2 + i) = rnd' (c + 2 + i)"
      using Cons.prems[of "i + 2"] by (simp add: add.assoc add.commute)
  qed
  with a b show ?case by simp
qed

lemma gen_next_Start:
  "suspension g = SuspendedStart \<Longrightarrow>
   gen_next rnd g h =
     (Yield (length h), g\<lparr>suspension := SuspendedYield1 (length h)\<rparr>,
      h @ [fst (initialPositions rnd 0 (vertexDistance g) [0..<length (adjacencyList g)])])"
  by (simp add: gen_next_def alloc_def getVertices_upt split: prod.splits)

lemma gen_next_Completed:
  "suspension g = Completed \<Longrightarrow> gen_next rnd g h = (Return, g, h)"
  by (simp add: gen_next_def)

lemma loop_from_end:
  "\<not> j < iterations g \<Longrightarrow> loop_from g j p h = (Return, g\<lparr>suspension := Completed\<rparr>, h)"
  by (simp add: loop_from_def)

lemma loop_from_step:
  assumes "j < iterations g" and "wf_adjacency (adjacencyList g)"
    and "length (h ! p) = length (adjacencyList g)"
  shows "loop_from g j p h =
     (Yield (length h), g\<lparr>suspension := SuspendedYield2 j (length h)\<rparr>,
      h @ [map (newPosition (adjacencyList g) (vertexDistance g) (h ! p))
               [0..<length (adjacencyList g)]])"
  using assms by (simp add: loop_from_def makeLayout_total alloc_def)

lemma drain_unfold:
  "gen_next rnd g h = (Yield r, g', h') \<Longrightarrow> drain rnd g' h' = (rs, e, g'', h'') \<Longrightarrow>
   drain rnd g h = (r # rs, e, g'', h'')"
  by (subst drain.simps) simp

lemma drain_Return:
  "gen_next rnd g h = (Return, g', h') \<Longrightarrow> drain rnd g h = ([], None, g', h')"
  by (subst drain.simps) simp

lemma drain_Throw:
  "gen_next rnd g h = (Throw e, g', h') \<Longrightarrow> drain rnd g h = ([], Some e, g', h')"
  by (subst drain.simps) simp

lemma drain_loop:
  assumes "wf_adjacency (adjacencyList g)" and "p < length h"
    and "length (h ! p) = length (adjacencyList g)"
    and "gen_next rnd g h = loop_from g j p h"
    and "n = nat (iterations g - j)"
  shows "\<exists>h'. drain rnd g h = ([length h..<length h + n], None, g\<lparr>suspension := Completed\<rparr>, h')
           \<and> length h' = length h + n \<and> take (length h) h' = h"
  using assms
proof (induction n arbitrary: g h p j)
  case 0
  then have "\<not> j < iterations g" by simp
  with 0 have "gen_next rnd g h = (Return, g\<lparr>suspension := Completed\<rparr>, h)"
    by (simp add: loop_from_end)
  then show ?case by (simp add: drain_Return)
next
  case (Suc n)
  let ?new = "map (newPosition (adjacencyList g) (vertexDistance g) (h ! p))
               [0..<length (adjacencyList g)]"
  let ?g = "g\<lparr>suspension := SuspendedYield2 j (length h)\<rparr>"
  let ?h = "h @ [?new]"
  from Suc.prems have j: "j < iterations g" by simp
  with Suc.prems have step: "gen_next rnd g h = (Yield (length h), ?g, ?h)"
    by (simp add: loop_from_step)
  have "\<exists>h'. drain rnd ?g ?h = ([length ?h..<length ?h + n], None, ?g\<lparr>suspension := Completed\<rparr>, h')
           \<and> length h' = length ?h + n \<and> take (length ?h) h' = ?h"
  proof (rule Suc.IH)
    show "wf_adjacency (adjacencyList ?g)" using Suc.prems by simp
    show "length h < length ?h" by simp
    show "length (?h ! length h) = length (adjacencyList ?g)" by simp
    show "gen_next rnd ?g ?h = loop_from ?g (j + 1) (length h) ?h" by (simp add: gen_next_def)
    show "n = nat (iterations ?g - (j + 1))" using Suc.prems by simp
  qed
  then obtain h' where d: "drain rnd ?g ?h = ([length ?h..<length ?h + n], None, g\<lparr>suspension := Completed\<rparr>, h')"
    and l: "length h' = length ?h + n" and t: "take (length ?h) h' = ?h"
    by auto
  from drain_unfold[OF step d] have
    "drain rnd g h = (length h # [length ?h..<length ?h + n], None, g\<lparr>suspension := Completed\<rparr>, h')" .
  moreover have "length h # [length ?h..<length ?h + n] = [length h..<length h + Suc n]"
    by (simp add: upt_conv_Cons)
  moreover have "take (length h) h' = h"
  proof -
    have "take (length h) h' = take (length h) (take (length ?h) h')" by (simp add: min_def)
    also have "\<dots> = h" by (simp only: t) simp
    finally show ?thesis .
  qed
  ultimately show ?case using l by simp
qed

lemma drain_runLayout:
  assumes "wf_adjacency adj"
  shows "\<exists>g' h'. drain rnd (runLayout adj d its) h =
            ([length h..<length h + nat (iterations (runLayout adj d its)) + 1], None, g', h')
          \<and> suspension g' = Completed
          \<and> length h' = length h + nat (iterations (runLayout adj d its)) + 1
          \<and> take (Suc (length h)) h' =
               h @ [fst (initialPositions rnd 0 (vertexDistance (runLayout adj d its)) [0..<length adj])]"
proof -
  let ?g0 = "runLayout adj d its"
  let ?init = "fst (initialPositions rnd 0 (vertexDistance ?g0) [0..<length adj])"
  let ?g1 = "?g0\<lparr>suspension := SuspendedYield1 (length h)\<rparr>"
  let ?h1 = "h @ [?init]"
  let ?n = "nat (iterations ?g0)"
  have adj: "adjacencyList ?g0 = adj" and start: "suspension ?g0 = SuspendedStart"
    by (simp_all add: runLayout_def)
  have first: "gen_next rnd ?g0 h = (Yield (length h), ?g1, ?h1)"
    using gen_next_Start[OF start, of rnd h] adj by simp
  have "\<exists>h'. drain rnd ?g1 ?h1 = ([length ?h1..<length ?h1 + ?n], None, ?g1\<lparr>suspension := Completed\<rparr>, h')
           \<and> length h' = length ?h1 + ?n \<and> take (length ?h1) h' = ?h1"
  proof (rule drain_loop)
    show "wf_adjacency (adjacencyList ?g1)" using assms adj by simp
    show "length h < length ?h1" by simp
    show "length (?h1 ! length h) = length (adjacencyList ?g1)"
      using adj by (simp add: initialPositions_length)
    show "gen_next rnd ?g1 ?h1 = loop_from ?g1 0 (length h) ?h1" by (simp add: gen_next_def)
    show "?n = nat (iterations ?g1 - 0)" by simp
  qed
  then obtain h' where d: "drain rnd ?g1 ?h1 = ([length ?h1..<length ?h1 + ?n], None, ?g1\<lparr>suspension := Completed\<rparr>, h')"
    and l: "length h' = length ?h1 + ?n" and t: "take (length ?h1) h' = ?h1"
    by auto
  from drain_unfold[OF first d] have
    "drain rnd ?g0 h = (length h # [length ?h1..<length ?h1 + ?n], None, ?g1\<lparr>suspension := Completed\<rparr>, h')" .
  moreover have "length h # [length ?h1..<length ?h1 + ?n] = [length h..<length h + ?n + 1]"
    by (simp add: upt_conv_Cons)
  ultimately show ?thesis using l t by auto
qed


lemma gen_next_decreases:
  "gen_next rnd g h = (Yield r, g', h') \<Longrightarrow>
   remaining g' < remaining g \<and> suspension g' \<noteq> SuspendedStart"
  by (auto simp: gen_next_def loop_from_def remaining_def alloc_def
           split: suspension.splits if_splits sum.splits prod.splits)

lemma gen_next_rnd:
  "suspension g \<noteq> SuspendedStart \<Longrightarrow> gen_next rnd g h = gen_next rnd' g h"
  by (simp add: gen_next_def split: suspension.splits)

lemma drain_rnd:
  "suspension g \<noteq> SuspendedStart \<Longrightarrow> drain rnd g h = drain rnd' g h"
proof (induction "remaining g" arbitrary: g h rule: less_induct)
  case less
  have same: "gen_next rnd' g h = gen_next rnd g h"
    using less.prems by (rule gen_next_rnd)
  obtain res g' h' where step: "gen_next rnd g h = (res, g', h')"
    by (cases "gen_next rnd g h") auto
  show ?case
  proof (cases res)
    case (Yield r)
    with step gen_next_decreases have "remaining g' < remaining g"
      and "suspension g' \<noteq> SuspendedStart" by auto
    then have "drain rnd g' h' = drain rnd' g' h'" by (rule less.hyps)
    with step same Yield show ?thesis
      by (subst drain.simps, subst (2) drain.simps) simp
  next
    case Return
    with step same show ?thesis
      by (subst drain.simps, subst (2) drain.simps) simp
  next
    case (Throw e)
    with step same show ?thesis
      by (subst drain.simps, subst (2) drain.simps) simp
  qed
qed

text \<open>
  C9: two layout runs on the same adjacency list, optimum distance and iteration count,
  whose random sources return the same values on the draws of the initial placement (two
  for each vertex), yield the same references, end in the same way and leave the same
  store, so the same snapshot sequence: the run reads the random source nowhere else.
\<close>

theorem runLayout_deterministic:
  assumes "\<forall>i<2 * length adj. rnd i = rnd' i"
  shows "drain rnd (runLayout adj d its) h = drain rnd' (runLayout adj d its) h"
proof -
  let ?g0 = "runLayout adj d its"
  have adj: "adjacencyList ?g0 = adj" and start: "suspension ?g0 = SuspendedStart"
    by (simp_all add: runLayout_def)
  have "initialPositions rnd 0 (vertexDistance ?g0) [0..<length adj]
      = initialPositions rnd' 0 (vertexDistance ?g0) [0..<length adj]"
    by (rule initialPositions_cong) (use assms in simp)
  with gen_next_Start[OF start] adj have first: "gen_next rnd' ?g0 h = gen_next rnd ?g0 h"
    by simp
  obtain r g' h' where step: "gen_next rnd ?g0 h = (Yield r, g', h')"
    using gen_next_Start[OF start] by blast
  with gen_next_decreases have "suspension g' \<noteq> SuspendedStart" by blast
  then have "drain rnd g' h' = drain rnd' g' h'" by (rule drain_rnd)
  with step first show ?thesis
    by (subst drain.simps, subst (2) drain.simps) simp
qed

text \<open>
  C9, at a graph of two vertices and two random sources that agree on the first four
  draws and differ on the fifth.
\<close>

theorem runLayout_deterministic_witness:
  "constant_draws 0 = draws_prefix 4 0 \<and> constant_draws 1 = draws_prefix 4 1
   \<and> constant_draws 2 = draws_prefix 4 2 \<and> constant_draws 3 = draws_prefix 4 3
   \<and> constant_draws 4 \<noteq> draws_prefix 4 4
   \<and> drain constant_draws (runLayout [[1], []] None None) []
       = drain (draws_prefix 4) (runLayout [[1], []] None None) []"
proof -
  have agree: "\<forall>i<2 * length [[1], [] :: nat list]. constant_draws i = draws_prefix 4 i"
    by (simp add: constant_draws_def draws_prefix_def)
  have differ: "constant_draws 4 \<noteq> draws_prefix 4 4"
    by (simp add: constant_draws_def draws_prefix_def)
  from runLayout_deterministic [OF agree, of None None "[]"] agree differ show ?thesis
    by simp
qed

text \<open>
  C2: on an adjacency list with valid targets, for every optimum distance and every
  iteration count \<open>k \<ge> 0\<close>, the run yields exactly \<open>k + 1\<close> snapshots, all distinct arrays,
  raises nothing, and the generator is then completed: a further \<open>next()\<close> reports that it
  is done. The run adds exactly these \<open>k + 1\<close> arrays to the store. For \<open>k = 0\<close> the one
  snapshot is the random initial one and no layout step has run.
\<close>

theorem runLayout_yields_iterations_plus_one:
  assumes "wf_adjacency adj" and "0 \<le> k"
  shows "\<exists>rs g' h'. drain rnd (runLayout adj (Some d) (Some k)) h = (rs, None, g', h')
           \<and> int (length rs) = k + 1 \<and> distinct rs
           \<and> suspension g' = Completed \<and> gen_next rnd g' h' = (Return, g', h')
           \<and> int (length h') = int (length h) + k + 1
           \<and> (k = 0 \<longrightarrow> rs = [length h]
                 \<and> h' = h @ [fst (initialPositions rnd 0 d (getVertices adj))])"
proof -
  let ?g0 = "runLayout adj (Some d) (Some k)"
  have its: "iterations ?g0 = k" and vd: "vertexDistance ?g0 = d"
    by (simp_all add: runLayout_def)
  from drain_runLayout[OF assms(1), of rnd "Some d" "Some k" h] obtain g' h' where
    d: "drain rnd ?g0 h = ([length h..<length h + nat k + 1], None, g', h')"
    and c: "suspension g' = Completed"
    and l: "length h' = length h + nat k + 1"
    and t: "take (Suc (length h)) h' = h @ [fst (initialPositions rnd 0 d [0..<length adj])]"
    unfolding its vd by blast
  have "k = 0 \<Longrightarrow> h' = h @ [fst (initialPositions rnd 0 d (getVertices adj))]"
    using l t by (simp add: getVertices_upt)
  moreover have "k = 0 \<Longrightarrow> [length h..<length h + nat k + 1] = [length h]"
    by simp
  ultimately show ?thesis
    using d c l assms(2) by (simp add: gen_next_Completed)
qed

text \<open>
  C2, at the graph with the one edge from 0 to 1 and two iterations: three snapshots.
\<close>

theorem runLayout_yields_iterations_plus_one_witness:
  "wf_adjacency [[1], []] \<and> (0 :: int) \<le> 2
   \<and> (\<exists>g' h'. drain constant_draws (runLayout [[1], []] (Some (Fin 3)) (Some 2)) []
                  = ([0, 1, 2], None, g', h')
         \<and> suspension g' = Completed \<and> length h' = 3)"
proof -
  have wf: "wf_adjacency [[1], []]" by (simp add: wf_adjacency_def)
  have k: "(0 :: int) \<le> 2" by simp
  from runLayout_yields_iterations_plus_one [OF wf k, of constant_draws "Fin 3" "[]"]
    drain_runLayout [OF wf, of constant_draws "Some (Fin 3)" "Some 2" "[]"]
  show ?thesis using wf
    by (auto simp: runLayout_def upt_conv_Cons)
qed

text \<open>
  C7: for a positive real optimum distance \<open>d\<close> and a random source with values in
  \<open>[0, 1)\<close>, the first \<open>next()\<close> yields a snapshot with one position for each vertex. The
  coordinates of vertex \<open>v\<close> are \<open>(r - 0.5) * 2 * d\<close> for the draws \<open>r\<close> number \<open>2v\<close> and
  \<open>2v + 1\<close>, each coordinate from a draw of its own, and lie in \<open>[-d, d]\<close>.
\<close>

theorem runLayout_first_snapshot:
  assumes "0 < d" and "\<forall>i. 0 \<le> rnd i \<and> rnd i < 1"
  shows "\<exists>g' ps. gen_next rnd (runLayout adj (Some (Fin d)) its) h = (Yield (length h), g', h @ [ps])
           \<and> length ps = length adj
           \<and> (\<forall>v<length adj. \<exists>a b. ps ! v = \<lparr>x = Fin a, y = Fin b\<rparr>
                 \<and> a = (rnd (2 * v) - 0.5) * 2 * d \<and> b = (rnd (2 * v + 1) - 0.5) * 2 * d
                 \<and> - d \<le> a \<and> a \<le> d \<and> - d \<le> b \<and> b \<le> d)"
proof -
  let ?g0 = "runLayout adj (Some (Fin d)) its"
  let ?ps = "fst (initialPositions rnd 0 (Fin d) [0..<length adj])"
  have start: "suspension ?g0 = SuspendedStart" by (simp add: runLayout_def)
  from gen_next_Start[OF start, of rnd h]
  have first: "gen_next rnd ?g0 h
      = (Yield (length h), ?g0\<lparr>suspension := SuspendedYield1 (length h)\<rparr>, h @ [?ps])"
    by (simp add: runLayout_def)
  have bound: "- d \<le> (r - 0.5) * 2 * d \<and> (r - 0.5) * 2 * d \<le> d" if "0 \<le> r" "r < 1" for r :: real
  proof -
    have "(r - 0.5) * 2 * d = (2 * r - 1) * d" by (simp add: algebra_simps)
    moreover have "- 1 \<le> 2 * r - 1" "2 * r - 1 \<le> 1" using that by simp_all
    moreover have "- d = (- 1) * d" by simp
    ultimately show ?thesis using assms(1)
      by (metis mult_le_cancel_right_pos mult_1)
  qed
  have "\<exists>a b. ?ps ! v = \<lparr>x = Fin a, y = Fin b\<rparr>
                 \<and> a = (rnd (2 * v) - 0.5) * 2 * d \<and> b = (rnd (2 * v + 1) - 0.5) * 2 * d
                 \<and> - d \<le> a \<and> a \<le> d \<and> - d \<le> b \<and> b \<le> d" if "v < length adj" for v
    using that bound[of "rnd (2 * v)"] bound[of "rnd (2 * v + 1)"] assms(2)
    by (simp add: initialPositions_nth minus_number_def)
  with first show ?thesis
    by (auto simp: initialPositions_length)
qed

text \<open>
  C7, at the optimum distance 3 and the random source that always returns 0.25: every
  coordinate is \<open>-1.5\<close>.
\<close>

theorem runLayout_first_snapshot_witness:
  "(0 :: real) < 3 \<and> (\<forall>i. 0 \<le> constant_draws i \<and> constant_draws i < 1)
   \<and> (\<exists>g' ps. gen_next constant_draws (runLayout [[1], []] (Some (Fin 3)) None) []
                  = (Yield 0, g', [ps])
         \<and> ps = [\<lparr>x = Fin (- 1.5), y = Fin (- 1.5)\<rparr>, \<lparr>x = Fin (- 1.5), y = Fin (- 1.5)\<rparr>])"
proof -
  have d: "(0 :: real) < 3" by simp
  have r: "\<forall>i. 0 \<le> constant_draws i \<and> constant_draws i < 1" by (simp add: constant_draws_def)
  from runLayout_first_snapshot [OF d r, of "[[1], []]" None "[]"] obtain g' ps where
    first: "gen_next constant_draws (runLayout [[1], []] (Some (Fin 3)) None) [] = (Yield 0, g', [ps])"
    and len: "length ps = 2"
    and each: "\<forall>v<2. ps ! v = \<lparr>x = Fin ((constant_draws (2 * v) - 0.5) * 2 * 3),
                                  y = Fin ((constant_draws (2 * v + 1) - 0.5) * 2 * 3)\<rparr>"
    by auto
  from each have "ps ! 0 = \<lparr>x = Fin (- 1.5), y = Fin (- 1.5)\<rparr>"
    and "ps ! 1 = \<lparr>x = Fin (- 1.5), y = Fin (- 1.5)\<rparr>"
    by (simp_all add: constant_draws_def)
  with len have "ps = [\<lparr>x = Fin (- 1.5), y = Fin (- 1.5)\<rparr>, \<lparr>x = Fin (- 1.5), y = Fin (- 1.5)\<rparr>]"
    by (cases ps; cases "tl ps") auto
  with d r first show ?thesis by blast
qed

lemma runLayout_valid_refs: "valid_refs (runLayout adj d its) h"
  by (simp add: valid_refs_def runLayout_def)

lemma gen_next_valid_refs:
  "valid_refs g h \<Longrightarrow> gen_next rnd g h = (res, g', h') \<Longrightarrow> valid_refs g' h'"
  by (auto simp: valid_refs_def gen_next_def loop_from_def alloc_def
           split: suspension.splits if_splits sum.splits prod.splits)

lemma gen_next_frame:
  "gen_next rnd g h = (res, g', h') \<Longrightarrow> take (length h) h' = h"
  by (auto simp: gen_next_def loop_from_def alloc_def
           split: suspension.splits if_splits sum.splits prod.splits)

lemma drain_frame:
  "drain rnd g h = (rs, e, g'', h'') \<Longrightarrow> take (length h) h'' = h"
proof (induction "remaining g" arbitrary: g h rs e g'' h'' rule: less_induct)
  case less
  obtain res g' h' where step: "gen_next rnd g h = (res, g', h')"
    by (cases "gen_next rnd g h") auto
  show ?case
  proof (cases res)
    case (Yield r)
    obtain rs' e' g1 h1 where rest: "drain rnd g' h' = (rs', e', g1, h1)"
      by (cases "drain rnd g' h'") auto
    from step Yield gen_next_decreases have "remaining g' < remaining g" by blast
    from less.hyps[OF this rest] have t: "take (length h') h1 = h'" .
    from drain_unfold[of rnd g h r g' h', OF _ rest] step Yield less.prems
    have "h'' = h1" by simp
    moreover from gen_next_frame[OF step] have "take (length h) h' = h" .
    moreover have "length h \<le> length h'"
      using gen_next_frame[OF step] by (metis length_take min.cobounded1 min.commute)
    ultimately show ?thesis using t
      by (metis min.absorb2 min.commute take_take)
  next
    case Return
    with step less.prems drain_Return[of rnd g h g' h'] have "h'' = h'" by simp
    with gen_next_frame[OF step] show ?thesis by simp
  next
    case (Throw err)
    with step less.prems drain_Throw[of rnd g h err g' h'] have "h'' = h'" by simp
    with gen_next_frame[OF step] show ?thesis by simp
  qed
qed

text \<open>
  C5: a layout step of the run, from the snapshot at the reference \<open>p\<close>, puts the new
  snapshot into a new array and leaves every array of the store as it was, the prior
  snapshot among them. Each of the \<open>N\<close> new positions is the result of the callback on the
  prior snapshot \<open>h ! p\<close>, the same for every vertex. All later steps of the run leave every
  array produced so far unchanged.
\<close>

theorem step_reads_frozen_snapshot:
  assumes "gen_next rnd g h = (Yield r, g', h')"
    and "suspension g = SuspendedYield1 p \<or> suspension g = SuspendedYield2 i p"
    and "p < length h"
  shows "r = length h \<and> h' = h @ [h' ! r] \<and> h' ! p = h ! p
       \<and> length (h' ! r) = length (adjacencyList g)
       \<and> (\<forall>v<length (adjacencyList g).
             layoutVertex (adjacencyList g) (vertexDistance g) (h ! p) (Fin 0.4)
               (getVertices (adjacencyList g)) v = Inr (h' ! r ! v))
       \<and> (\<forall>rs e g'' h''. drain rnd g' h' = (rs, e, g'', h'') \<longrightarrow> take (length h') h'' = h')"
proof -
  from assms(2) obtain j where loop: "gen_next rnd g h = loop_from g j p h"
    by (auto simp: gen_next_def)
  with assms(1) obtain new where
    new: "makeLayout (adjacencyList g) (vertexDistance g) (h ! p) = Inr new"
    and r: "r = length h" and h': "h' = h @ [new]"
    by (auto simp: loop_from_def alloc_def split: if_splits sum.splits)
  from new have m: "map_array (layoutVertex (adjacencyList g) (vertexDistance g) (h ! p) (Fin 0.4)
           (getVertices (adjacencyList g))) [0..<length (adjacencyList g)] = Inr new"
    by (simp add: makeLayout_def Let_def getVertices_upt)
  from map_array_Inr[OF m] have len: "length new = length (adjacencyList g)"
    and each: "\<forall>v<length (adjacencyList g).
       layoutVertex (adjacencyList g) (vertexDistance g) (h ! p) (Fin 0.4)
          (getVertices (adjacencyList g)) v = Inr (new ! v)"
    by simp_all
  have later: "\<forall>rs e g'' h''. drain rnd g' h' = (rs, e, g'', h'') \<longrightarrow> take (length h') h'' = h'"
    using drain_frame by blast
  from r h' len each assms(3) later show ?thesis
    by (simp add: nth_append)
qed

lemma makeLayout_example:
  "makeLayout [[1], []] (Fin 3) [\<lparr>x = Fin 0, y = Fin 0\<rparr>, \<lparr>x = Fin 3, y = Fin 0\<rparr>]
     = Inr [\<lparr>x = Fin (- 0.4), y = Fin 0\<rparr>, \<lparr>x = Fin 3.4, y = Fin 0\<rparr>]"
proof -
  have "wf_adjacency [[1], []]" by (simp add: wf_adjacency_def)
  then show ?thesis
    by (simp add: makeLayout_total newPosition_def getAdjacentVertices_def
          calculateSpringForce_def calculateRepulsion_def
          springMagnitude_def norm_vec_def length_vec_def scalarMult_def sub_def add_def
          minus_number_def vector_sum_def zero_number_def sqrt_9 upt_conv_Cons Let_def)
qed

text \<open>
  C5, at the graph with the one edge from 0 to 1 and the snapshot \<open>(0, 0)\<close>, \<open>(3, 0)\<close>: the
  step yields a second array and the first is still \<open>(0, 0)\<close>, \<open>(3, 0)\<close>.
\<close>

theorem step_reads_frozen_snapshot_witness:
  "gen_next constant_draws
     \<lparr>adjacencyList = [[1], []], vertexDistance = Fin 3, iterations = 1,
      suspension = SuspendedYield1 0\<rparr>
     [[\<lparr>x = Fin 0, y = Fin 0\<rparr>, \<lparr>x = Fin 3, y = Fin 0\<rparr>]]
   = (Yield 1,
      \<lparr>adjacencyList = [[1], []], vertexDistance = Fin 3, iterations = 1,
       suspension = SuspendedYield2 0 1\<rparr>,
      [[\<lparr>x = Fin 0, y = Fin 0\<rparr>, \<lparr>x = Fin 3, y = Fin 0\<rparr>],
       [\<lparr>x = Fin (- 0.4), y = Fin 0\<rparr>, \<lparr>x = Fin 3.4, y = Fin 0\<rparr>]])
   \<and> take 2 (snd (snd (snd (drain constant_draws
          \<lparr>adjacencyList = [[1], []], vertexDistance = Fin 3, iterations = 1,
           suspension = SuspendedYield2 0 1\<rparr>
          [[\<lparr>x = Fin 0, y = Fin 0\<rparr>, \<lparr>x = Fin 3, y = Fin 0\<rparr>],
           [\<lparr>x = Fin (- 0.4), y = Fin 0\<rparr>, \<lparr>x = Fin 3.4, y = Fin 0\<rparr>]]))))
       = [[\<lparr>x = Fin 0, y = Fin 0\<rparr>, \<lparr>x = Fin 3, y = Fin 0\<rparr>],
          [\<lparr>x = Fin (- 0.4), y = Fin 0\<rparr>, \<lparr>x = Fin 3.4, y = Fin 0\<rparr>]]"
proof -
  let ?g = "\<lparr>adjacencyList = [[1], []], vertexDistance = Fin 3, iterations = 1,
      suspension = SuspendedYield1 0\<rparr>"
  let ?h = "[[\<lparr>x = Fin 0, y = Fin 0\<rparr>, \<lparr>x = Fin 3, y = Fin 0\<rparr>]]"
  let ?g' = "\<lparr>adjacencyList = [[1], []], vertexDistance = Fin 3, iterations = 1,
       suspension = SuspendedYield2 0 1\<rparr>"
  let ?h' = "[[\<lparr>x = Fin 0, y = Fin 0\<rparr>, \<lparr>x = Fin 3, y = Fin 0\<rparr>],
       [\<lparr>x = Fin (- 0.4), y = Fin 0\<rparr>, \<lparr>x = Fin 3.4, y = Fin 0\<rparr>]]"
  have step: "gen_next constant_draws ?g ?h = (Yield 1, ?g', ?h')"
    using makeLayout_example by (simp add: gen_next_def loop_from_def alloc_def)
  have susp: "suspension ?g = SuspendedYield1 0 \<or> suspension ?g = SuspendedYield2 0 0"
    by simp
  have valid: "0 < length ?h" by simp
  obtain rs e g'' h'' where rest: "drain constant_draws ?g' ?h' = (rs, e, g'', h'')"
    by (cases "drain constant_draws ?g' ?h'") auto
  with step_reads_frozen_snapshot [OF step susp valid] have "take (length ?h') h'' = ?h'"
    by blast
  with rest step show ?thesis
    by (simp add: numeral_2_eq_2)
qed

text \<open>
  C4, as the claim states it: with the optimum distance \<open>-1\<close> and the iteration count
  \<open>-1\<close> the first \<open>next()\<close> yields a snapshot.
\<close>

theorem runLayout_invalid_configuration_yields:
  "gen_next constant_draws (runLayout [[]] (Some (Fin (- 1))) (Some (- 1))) []
     = (Yield 0,
        \<lparr>adjacencyList = [[]], vertexDistance = Fin (- 1), iterations = - 1,
         suspension = SuspendedYield1 0\<rparr>,
        [[\<lparr>x = Fin 0.5, y = Fin 0.5\<rparr>]])"
  by (simp add: gen_next_def runLayout_def getVertices_def alloc_def constant_draws_def
        minus_number_def)

text \<open>
  C4, amended: \<open>runLayout\<close> validates nothing. For every optimum distance and every
  iteration count, invalid ones included, the first \<open>next()\<close> yields the initial snapshot.
  On an adjacency list with valid targets the run raises nothing and yields one snapshot
  more than the iteration count, or one snapshot if the count is negative; with a negative
  count the run yields exactly the initial snapshot and ends, on every adjacency list.
\<close>

theorem runLayout_validates_nothing:
  "(\<exists>g' ps. gen_next rnd (runLayout adj d its) h = (Yield (length h), g', h @ [ps])
        \<and> length ps = length adj)
   \<and> (wf_adjacency adj \<longrightarrow>
        (\<exists>rs g' h'. drain rnd (runLayout adj d its) h = (rs, None, g', h')
           \<and> length rs = nat (iterations (runLayout adj d its)) + 1
           \<and> suspension g' = Completed))
   \<and> (\<forall>k<0. \<exists>g' h'. drain rnd (runLayout adj d (Some k)) h = ([length h], None, g', h')
           \<and> suspension g' = Completed)"
proof (intro conjI allI impI)
  let ?g0 = "runLayout adj d its"
  have start: "suspension ?g0 = SuspendedStart" by (simp add: runLayout_def)
  from gen_next_Start[OF start, of rnd h]
  show "\<exists>g' ps. gen_next rnd ?g0 h = (Yield (length h), g', h @ [ps]) \<and> length ps = length adj"
    by (simp add: runLayout_def initialPositions_length)
next
  assume "wf_adjacency adj"
  from drain_runLayout[OF this, of rnd d its h]
  show "\<exists>rs g' h'. drain rnd (runLayout adj d its) h = (rs, None, g', h')
           \<and> length rs = nat (iterations (runLayout adj d its)) + 1
           \<and> suspension g' = Completed"
    by auto
next
  fix k :: int assume k: "k < 0"
  let ?g0 = "runLayout adj d (Some k)"
  let ?g1 = "?g0\<lparr>suspension := SuspendedYield1 (length h)\<rparr>"
  let ?h1 = "h @ [fst (initialPositions rnd 0 (vertexDistance ?g0) [0..<length (adjacencyList ?g0)])]"
  have start: "suspension ?g0 = SuspendedStart" by (simp add: runLayout_def)
  have first: "gen_next rnd ?g0 h = (Yield (length h), ?g1, ?h1)"
    using gen_next_Start[OF start, of rnd h] .
  have "gen_next rnd ?g1 ?h1 = (Return, ?g1\<lparr>suspension := Completed\<rparr>, ?h1)"
    using k by (simp add: gen_next_def loop_from_def runLayout_def)
  then have "drain rnd ?g1 ?h1 = ([], None, ?g1\<lparr>suspension := Completed\<rparr>, ?h1)"
    by (rule drain_Return)
  from drain_unfold[OF first this]
  show "\<exists>g' h'. drain rnd ?g0 h = ([length h], None, g', h') \<and> suspension g' = Completed"
    by simp
qed

text \<open>
  C4, amended, at the one-vertex graph with the optimum distance \<open>-1\<close> and the iteration
  count \<open>-1\<close>: one snapshot, no exception.
\<close>

theorem runLayout_validates_nothing_witness:
  "wf_adjacency [[]] \<and> (- 1 :: int) < 0
   \<and> (\<exists>g' h'. drain constant_draws (runLayout [[]] (Some (Fin (- 1))) (Some (- 1))) []
                   = ([0], None, g', h') \<and> suspension g' = Completed)"
  using runLayout_validates_nothing [of constant_draws "[[]]" "Some (Fin (- 1))" "Some (- 1)" "[]"]
  by (simp add: wf_adjacency_def)

end
